theory Spec2Isabelle
  imports Main "HOL-Library.Multiset"
begin

section \<open>Data model (types.ts)\<close>

text \<open>
  The closed enumeration \<^verbatim>\<open>GateType\<close>, and the interfaces \<^verbatim>\<open>CircuitNode\<close> and
  \<^verbatim>\<open>Wire\<close>. Field names carry a prefix where the source's name is a HOL constant or
  an Isabelle keyword (\<^verbatim>\<open>id\<close>, \<^verbatim>\<open>type\<close>, \<^verbatim>\<open>x\<close>, \<^verbatim>\<open>y\<close>, \<^verbatim>\<open>label\<close>, \<^verbatim>\<open>value\<close>).
  The coordinates \<^verbatim>\<open>x\<close> and \<^verbatim>\<open>y\<close> are JavaScript numbers that the analysis code only
  copies, so their type is left open as \<open>'c\<close>. Pin indices are numbers that the code
  compares and subtracts; they are integers here.
\<close>

datatype GateType = AND | OR | NOT | NAND | NOR | XOR | INPUT | OUTPUT

record 'c CircuitNode =
  node_id :: string
  node_type :: GateType
  node_x :: 'c
  node_y :: 'c
  node_label :: string
  node_value :: bool

record Wire =
  wire_id :: string
  sourceNodeId :: string
  sourcePinIndex :: int
  targetNodeId :: string
  targetPinIndex :: int

record TruthTableRow =
  inputs :: "string \<rightharpoonup> bool"
  outputs :: "string \<rightharpoonup> bool"

section \<open>Evaluation (circuitLogic.ts)\<close>

text \<open>
  An array of \<^verbatim>\<open>boolean | undefined\<close> is a list of \<open>bool option\<close>, \<open>None\<close> being
  \<^verbatim>\<open>undefined\<close>. Reading past the end of a JavaScript array gives \<^verbatim>\<open>undefined\<close>.
\<close>

definition slot :: "bool option list \<Rightarrow> nat \<Rightarrow> bool option" where
  "slot xs k = (if k < length xs then xs ! k else None)"

text \<open>
  \<^verbatim>\<open>inputs[w.targetPinIndex] = sourceNode.value\<close> under the guard
  \<^verbatim>\<open>w.targetPinIndex < 2\<close>: indices 0 and 1 overwrite an element of the two-element
  array; a negative index creates a property of that name and leaves both elements alone.
\<close>

definition setPin :: "bool option list \<Rightarrow> int \<Rightarrow> bool \<Rightarrow> bool option list" where
  "setPin xs pin v = (if 0 \<le> pin \<and> pin < 2 then xs[nat pin := Some v] else xs)"

text \<open>
  The callback of \<^verbatim>\<open>inputWires.forEach\<close>: a wire whose source id matches no node
  writes nothing.
\<close>

definition writePin :: "'c CircuitNode list \<Rightarrow> Wire \<Rightarrow> bool option list \<Rightarrow> bool option list" where
  "writePin allNodes w ins =
     (case find (\<lambda>n. node_id n = sourceNodeId w) allNodes of
        Some sourceNode \<Rightarrow>
          if targetPinIndex w < 2 then setPin ins (targetPinIndex w) (node_value sourceNode)
          else ins
      | None \<Rightarrow> ins)"

text \<open>
  \<^verbatim>\<open>getNodeInputs\<close>: the wires into the node, sorted by target pin (the sort of an
  array is stable, and the comparator is a difference of numbers), written one after
  the other into \<^verbatim>\<open>[undefined, undefined]\<close>.
\<close>

definition getNodeInputs ::
  "string \<Rightarrow> Wire list \<Rightarrow> 'c CircuitNode list \<Rightarrow> bool option list" where
  "getNodeInputs nodeId wires allNodes =
     (let inputWires = sort_key targetPinIndex (filter (\<lambda>w. targetNodeId w = nodeId) wires)
      in fold (writePin allNodes) inputWires [None, None])"

definition evaluateGate :: "GateType \<Rightarrow> bool option list \<Rightarrow> bool" where
  "evaluateGate ty ins =
     (let a = (slot ins 0 = Some True);
          b = (slot ins 1 = Some True)
      in case ty of
           AND \<Rightarrow> a \<and> b
         | OR \<Rightarrow> a \<or> b
         | NOT \<Rightarrow> \<not> a
         | NAND \<Rightarrow> \<not> (a \<and> b)
         | NOR \<Rightarrow> \<not> (a \<or> b)
         | XOR \<Rightarrow> (a \<and> \<not> b) \<or> (\<not> a \<and> b)
         | INPUT \<Rightarrow> a
         | OUTPUT \<Rightarrow> a)"

text \<open>
  The callback of \<^verbatim>\<open>newNodes.map\<close> in \<^verbatim>\<open>simulateCircuit\<close>: the node of the next
  snapshot, paired with whether the callback set \<^verbatim>\<open>changed\<close>.
\<close>

definition stepNode ::
  "Wire list \<Rightarrow> 'c CircuitNode list \<Rightarrow> 'c CircuitNode \<Rightarrow> 'c CircuitNode \<times> bool" where
  "stepNode wires newNodes node =
     (if node_type node = INPUT then (node, False)
      else let ins = getNodeInputs (node_id node) wires newNodes;
               newValue = evaluateGate (node_type node) ins
           in if newValue \<noteq> node_value node then (node\<lparr>node_value := newValue\<rparr>, True)
              else (node, False))"

text \<open>One pass of the loop body: the next snapshot and the flag \<^verbatim>\<open>changed\<close>.\<close>

definition pass :: "Wire list \<Rightarrow> 'c CircuitNode list \<Rightarrow> 'c CircuitNode list \<times> bool" where
  "pass wires newNodes =
     (let rs = map (stepNode wires newNodes) newNodes
      in (map fst rs, list_ex snd rs))"

definition MAX_ITERATIONS :: nat where
  "MAX_ITERATIONS = 50"

text \<open>
  The \<^verbatim>\<open>while (changed && iterations < MAX_ITERATIONS)\<close> loop on its three variables.
  It returns \<^verbatim>\<open>newNodes\<close> together with the final \<^verbatim>\<open>iterations\<close>, the number of passes
  that were run.
\<close>

function simulateLoop ::
  "Wire list \<Rightarrow> 'c CircuitNode list \<Rightarrow> bool \<Rightarrow> nat \<Rightarrow> 'c CircuitNode list \<times> nat" where
  "simulateLoop wires newNodes changed iterations =
     (if changed \<and> iterations < MAX_ITERATIONS
      then (case pass wires newNodes of
              (nextNodes, changed') \<Rightarrow> simulateLoop wires nextNodes changed' (iterations + 1))
      else (newNodes, iterations))"
  by pat_completeness auto
termination
  by (relation "measure (\<lambda>(wires, newNodes, changed, iterations). MAX_ITERATIONS - iterations)") auto

definition simulateCircuit :: "'c CircuitNode list \<Rightarrow> Wire list \<Rightarrow> 'c CircuitNode list" where
  "simulateCircuit nodes wires = fst (simulateLoop wires nodes True 0)"

definition passesRun :: "'c CircuitNode list \<Rightarrow> Wire list \<Rightarrow> nat" where
  "passesRun nodes wires = snd (simulateLoop wires nodes True 0)"

declare simulateLoop.simps [simp del]

section \<open>Truth table (circuitLogic.ts)\<close>

text \<open>
  JavaScript's 32-bit integer operators on integers. \<^verbatim>\<open>ToInt32\<close> wraps into
  \<open>[-2^31, 2^31)\<close>; a shift count is taken modulo 32.
\<close>

definition toInt32 :: "int \<Rightarrow> int" where
  "toInt32 x = (x + 2 ^ 31) mod 2 ^ 32 - 2 ^ 31"

definition shiftCount :: "int \<Rightarrow> nat" where
  "shiftCount k = nat (k mod 32)"

text \<open>\<^verbatim>\<open>a << k\<close>\<close>

definition jsShl :: "int \<Rightarrow> int \<Rightarrow> int" where
  "jsShl a k = toInt32 (toInt32 a * 2 ^ shiftCount k)"

text \<open>\<^verbatim>\<open>a >> k\<close>, the sign-propagating shift\<close>

definition jsSar :: "int \<Rightarrow> int \<Rightarrow> int" where
  "jsSar a k = toInt32 a div 2 ^ shiftCount k"

text \<open>\<^verbatim>\<open>x & 1\<close>: the lowest bit of the two's complement of \<open>x\<close>\<close>

definition jsAnd1 :: "int \<Rightarrow> int" where
  "jsAnd1 x = toInt32 x mod 2"

text \<open>\<^verbatim>\<open>((i >> (inputs.length - 1 - idx)) & 1) === 1\<close>, with \<open>n\<close> for \<^verbatim>\<open>inputs.length\<close>\<close>

definition inputBit :: "int \<Rightarrow> int \<Rightarrow> int \<Rightarrow> bool" where
  "inputBit n i idx = (jsAnd1 (jsSar i (n - 1 - idx)) = 1)"

text \<open>\<^verbatim>\<open>Array.prototype.findIndex\<close>: the first index whose element passes, or -1.\<close>

primrec findIndex :: "('a \<Rightarrow> bool) \<Rightarrow> 'a list \<Rightarrow> int" where
  "findIndex P [] = - 1"
| "findIndex P (x # xs) =
     (if P x then 0 else (let r = findIndex P xs in if r < 0 then - 1 else r + 1))"

text \<open>
  \<^verbatim>\<open>Array.prototype.sort\<close> with a comparator. The sort is stable, and for a consistent
  comparator (as \<^verbatim>\<open>localeCompare\<close> is) its result is the stable sorted arrangement,
  computed here by insertion: an element goes before the first element it does not
  compare greater than.
\<close>

fun insortBy :: "('a \<Rightarrow> 'a \<Rightarrow> int) \<Rightarrow> 'a \<Rightarrow> 'a list \<Rightarrow> 'a list" where
  "insortBy cmp x [] = [x]"
| "insortBy cmp x (y # ys) = (if cmp x y \<le> 0 then x # y # ys else y # insortBy cmp x ys)"

definition sortBy :: "('a \<Rightarrow> 'a \<Rightarrow> int) \<Rightarrow> 'a list \<Rightarrow> 'a list" where
  "sortBy cmp xs = foldr (insortBy cmp) xs []"

text \<open>
  \<^verbatim>\<open>nodes.filter(n => n.type === t).sort((a, b) => a.label.localeCompare(b.label))\<close>.
  \<^verbatim>\<open>localeCompare\<close> belongs to the JavaScript runtime and depends on the locale; it is
  the parameter \<open>lc\<close>.
\<close>

definition sortedByLabel ::
  "(string \<Rightarrow> string \<Rightarrow> int) \<Rightarrow> GateType \<Rightarrow> 'c CircuitNode list \<Rightarrow> 'c CircuitNode list" where
  "sortedByLabel lc t nodes =
     sortBy (\<lambda>a b. lc (node_label a) (node_label b)) (filter (\<lambda>n. node_type n = t) nodes)"

text \<open>Step 1 of the loop body: the working copy with the inputs set from the bits of \<open>i\<close>.\<close>

definition setInputs :: "'c CircuitNode list \<Rightarrow> int \<Rightarrow> 'c CircuitNode list \<Rightarrow> 'c CircuitNode list" where
  "setInputs inputNodes i nodes =
     map (\<lambda>node.
            if node_type node = INPUT
            then (let inputIndex = findIndex (\<lambda>inp. node_id inp = node_id node) inputNodes;
                      val = inputBit (int (length inputNodes)) i inputIndex
                  in node\<lparr>node_value := val\<rparr>)
            else node) nodes"

text \<open>
  \<^verbatim>\<open>record[key] = value\<close> on a record that starts as the object literal \<^verbatim>\<open>{}\<close>, with a
  boolean value. The record is the map of its own properties. The key \<^verbatim>\<open>__proto__\<close> is an
  accessor of \<^verbatim>\<open>Object.prototype\<close> whose setter ignores a value that is neither an object
  nor null, so the assignment stores nothing; every other key becomes an own property.
\<close>

definition setKey :: "(string \<rightharpoonup> bool) \<Rightarrow> string \<Rightarrow> bool \<Rightarrow> (string \<rightharpoonup> bool)" where
  "setKey m key v = (if key = ''__proto__'' then m else m(key \<mapsto> v))"

text \<open>Step 3: the two records of the row, filled key by key.\<close>

definition rowInputs :: "'c CircuitNode list \<Rightarrow> int \<Rightarrow> (string \<rightharpoonup> bool)" where
  "rowInputs inputNodes i =
     fold (\<lambda>(idx, inp) m.
             setKey m (node_label inp) (inputBit (int (length inputNodes)) i (int idx)))
       (enumerate 0 inputNodes) Map.empty"

definition rowOutputs :: "'c CircuitNode list \<Rightarrow> 'c CircuitNode list \<Rightarrow> (string \<rightharpoonup> bool)" where
  "rowOutputs outputNodes tempNodes =
     fold (\<lambda>out m.
             setKey m (node_label out)
               (case find (\<lambda>n. node_id n = node_id out) tempNodes of
                  Some computedNode \<Rightarrow> node_value computedNode
                | None \<Rightarrow> False))
       outputNodes Map.empty"

text \<open>The body of the \<^verbatim>\<open>for\<close> loop: the row for index \<open>i\<close>.\<close>

definition tableRow ::
  "'c CircuitNode list \<Rightarrow> 'c CircuitNode list \<Rightarrow> 'c CircuitNode list \<Rightarrow> Wire list \<Rightarrow> int
     \<Rightarrow> TruthTableRow" where
  "tableRow inputNodes outputNodes nodes wires i =
     (let tempNodes = simulateCircuit (setInputs inputNodes i nodes) wires
      in \<lparr>inputs = rowInputs inputNodes i, outputs = rowOutputs outputNodes tempNodes\<rparr>)"

text \<open>\<^verbatim>\<open>for (let i = 0; i < numRows; i++) { ...; table.push(row) }\<close>\<close>

function tableLoop ::
  "'c CircuitNode list \<Rightarrow> 'c CircuitNode list \<Rightarrow> 'c CircuitNode list \<Rightarrow> Wire list \<Rightarrow> int \<Rightarrow> int
     \<Rightarrow> TruthTableRow list \<Rightarrow> TruthTableRow list" where
  "tableLoop inputNodes outputNodes nodes wires numRows i table =
     (if i < numRows
      then tableLoop inputNodes outputNodes nodes wires numRows (i + 1)
             (table @ [tableRow inputNodes outputNodes nodes wires i])
      else table)"
  by pat_completeness auto
termination
  by (relation "measure (\<lambda>(inputNodes, outputNodes, nodes, wires, numRows, i, table). nat (numRows - i))")
     auto

declare tableLoop.simps [simp del]

definition generateTruthTable ::
  "(string \<Rightarrow> string \<Rightarrow> int) \<Rightarrow> 'c CircuitNode list \<Rightarrow> Wire list \<Rightarrow> TruthTableRow list" where
  "generateTruthTable lc nodes wires =
     (let inputNodes = sortedByLabel lc INPUT nodes;
          outputNodes = sortedByLabel lc OUTPUT nodes
      in if length inputNodes = 0 then []
         else let numRows = jsShl 1 (int (length inputNodes))
              in tableLoop inputNodes outputNodes nodes wires numRows 0 [])"

section \<open>Expression synthesis (circuitLogic.ts)\<close>

text \<open>
  Strings are lists of bytes. The three symbols of the notation that lie outside ASCII
  are written in UTF-8: the middle dot U+00B7, the not sign U+00AC and the circled plus
  U+2295.
\<close>

definition DOT :: string where
  "DOT = [CHR 0xC2, CHR 0xB7]"

definition NEG :: string where
  "NEG = [CHR 0xC2, CHR 0xAC]"

definition OPLUS :: string where
  "OPLUS = [CHR 0xE2, CHR 0x8A, CHR 0x95]"

text \<open>\<^verbatim>\<open>s || d\<close> on strings: the empty string is falsy.\<close>

definition orElse :: "string \<Rightarrow> string \<Rightarrow> string" where
  "orElse s d = (if s = [] then d else s)"

text \<open>\<^verbatim>\<open>sources[k] || d\<close>: an index past the end reads \<^verbatim>\<open>undefined\<close>, which is falsy too.\<close>

definition elemOr :: "string list \<Rightarrow> nat \<Rightarrow> string \<Rightarrow> string" where
  "elemOr xs k d = (if k < length xs then orElse (xs ! k) d else d)"

text \<open>
  The part of \<^verbatim>\<open>buildExpr\<close> after \<^verbatim>\<open>sources\<close> is computed. The \<^verbatim>\<open>switch\<close> has no case
  for INPUT, which falls to \<^verbatim>\<open>default\<close>.
\<close>

definition renderGate :: "'c CircuitNode \<Rightarrow> string list \<Rightarrow> string" where
  "renderGate node sources =
     (if length sources = 0 then orElse (node_label node) ''?''
      else let a = elemOr sources 0 ''0'';
               b = elemOr sources 1 ''0''
           in case node_type node of
                AND \<Rightarrow> ''('' @ a @ '' '' @ DOT @ '' '' @ b @ '')''
              | OR \<Rightarrow> ''('' @ a @ '' + '' @ b @ '')''
              | NOT \<Rightarrow> NEG @ a
              | NAND \<Rightarrow> NEG @ ''('' @ a @ '' '' @ DOT @ '' '' @ b @ '')''
              | NOR \<Rightarrow> NEG @ ''('' @ a @ '' + '' @ b @ '')''
              | XOR \<Rightarrow> ''('' @ a @ '' '' @ OPLUS @ '' '' @ b @ '')''
              | OUTPUT \<Rightarrow> elemOr sources 0 ''?''
              | INPUT \<Rightarrow> ''?'')"

text \<open>
  \<^verbatim>\<open>buildExpr\<close>. The set \<^verbatim>\<open>visited\<close> gets \<^verbatim>\<open>nodeId\<close> added before the node is looked up,
  and every recursive call receives a copy (\<^verbatim>\<open>new Set(visited)\<close>) of the set with that
  id in it. Termination is proved below, by the number of node ids not yet visited.
\<close>

function buildExpr ::
  "'c CircuitNode list \<Rightarrow> Wire list \<Rightarrow> string \<Rightarrow> string set \<Rightarrow> string" where
  "buildExpr nodes wires nodeId visited =
     (if nodeId \<in> visited then ''[LOOP]''
      else case find (\<lambda>n. node_id n = nodeId) nodes of
             None \<Rightarrow> ''?''
           | Some node \<Rightarrow>
               if node_type node = INPUT then node_label node
               else let inputWires =
                          sort_key targetPinIndex (filter (\<lambda>w. targetNodeId w = nodeId) wires);
                        sources =
                          map (\<lambda>w. buildExpr nodes wires (sourceNodeId w) (insert nodeId visited))
                            inputWires
                    in renderGate node sources)"
  by pat_completeness auto

text \<open>\<^verbatim>\<open>Array.prototype.join\<close>\<close>

fun joinWith :: "string \<Rightarrow> string list \<Rightarrow> string" where
  "joinWith sep [] = []"
| "joinWith sep [x] = x"
| "joinWith sep (x # y # ys) = x @ sep @ joinWith sep (y # ys)"

definition generateExpression :: "'c CircuitNode list \<Rightarrow> Wire list \<Rightarrow> string" where
  "generateExpression nodes wires =
     (let outputNodes = filter (\<lambda>n. node_type n = OUTPUT) nodes
      in if length outputNodes = 0 then ''No Output''
         else joinWith ''; ''
                (map (\<lambda>out. node_label out @ '' = '' @ buildExpr nodes wires (node_id out) {})
                   outputNodes))"

section \<open>Notions used to state the properties\<close>

text \<open>The node list after \<open>k\<close> passes of the loop body.\<close>

definition snapshot :: "nat \<Rightarrow> Wire list \<Rightarrow> 'c CircuitNode list \<Rightarrow> 'c CircuitNode list" where
  "snapshot k wires nodes = ((\<lambda>ns. fst (pass wires ns)) ^^ k) nodes"

text \<open>A node with its value blanked: what is left are id, type, coordinates and label.\<close>

definition frame :: "'c CircuitNode \<Rightarrow> 'c CircuitNode" where
  "frame n = n\<lparr>node_value := False\<rparr>"

definition lastOpt :: "'a list \<Rightarrow> 'a option" where
  "lastOpt xs = (if xs = [] then None else Some (last xs))"

text \<open>The values that the wires of a list write to pin \<open>k\<close>, in list order.\<close>

definition pinWrites :: "nat \<Rightarrow> Wire list \<Rightarrow> 'c CircuitNode list \<Rightarrow> bool list" where
  "pinWrites k ws allNodes =
     concat (map (\<lambda>w. if targetPinIndex w = int k
                       then (case find (\<lambda>n. node_id n = sourceNodeId w) allNodes of
                               Some s \<Rightarrow> [node_value s] | None \<Rightarrow> [])
                       else []) ws)"

text \<open>A pin value read as a truth value: an absent pin counts as false.\<close>

definition asBool :: "bool option \<Rightarrow> bool" where
  "asBool p = (case p of None \<Rightarrow> False | Some v \<Rightarrow> v)"

text \<open>The wire graph: an edge from the source id to the target id of every wire.\<close>

definition wireGraph :: "Wire list \<Rightarrow> (string \<times> string) set" where
  "wireGraph wires = (\<lambda>w. (sourceNodeId w, targetNodeId w)) ` set wires"

section \<open>Example circuits\<close>

text \<open>Nodes and wires of the examples: coordinates 0, source pin 0.\<close>

definition mkNode :: "string \<Rightarrow> GateType \<Rightarrow> string \<Rightarrow> bool \<Rightarrow> int CircuitNode" where
  "mkNode i ty l v =
     \<lparr>node_id = i, node_type = ty, node_x = 0, node_y = 0, node_label = l, node_value = v\<rparr>"

definition mkWire :: "string \<Rightarrow> string \<Rightarrow> int \<Rightarrow> Wire" where
  "mkWire s t p =
     \<lparr>wire_id = s @ ''-'' @ t, sourceNodeId = s, sourcePinIndex = 0, targetNodeId = t,
      targetPinIndex = p\<rparr>"

text \<open>A comparator for the examples: strings compared by character code, position by position.\<close>

fun compareCodes :: "string \<Rightarrow> string \<Rightarrow> int" where
  "compareCodes [] [] = 0"
| "compareCodes [] (y # ys) = - 1"
| "compareCodes (x # xs) [] = 1"
| "compareCodes (x # xs) (y # ys) =
     (if (of_char x :: nat) < of_char y then - 1
      else if (of_char y :: nat) < of_char x then 1
      else compareCodes xs ys)"

text \<open>An input \<open>A\<close> into a NOT gate into an output \<open>Y\<close>.\<close>

definition inverterNodes :: "int CircuitNode list" where
  "inverterNodes =
     [mkNode ''a'' INPUT ''A'' False, mkNode ''n'' NOT ''NOT'' False, mkNode ''y'' OUTPUT ''Y'' False]"

definition inverterWires :: "Wire list" where
  "inverterWires = [mkWire ''a'' ''n'' 0, mkWire ''n'' ''y'' 0]"

text \<open>Inputs \<open>B\<close> and \<open>A\<close>, listed in this order, into an AND gate into an output.\<close>

definition andNodes :: "int CircuitNode list" where
  "andNodes = [mkNode ''b'' INPUT ''B'' False, mkNode ''a'' INPUT ''A'' False,
               mkNode ''g'' AND ''AND'' False, mkNode ''y'' OUTPUT ''Y'' False]"

definition andWires :: "Wire list" where
  "andWires = [mkWire ''a'' ''g'' 0, mkWire ''b'' ''g'' 1, mkWire ''g'' ''y'' 0]"

text \<open>A NOT gate wired into itself: it never settles.\<close>

definition ringNodes :: "int CircuitNode list" where
  "ringNodes = [mkNode ''r'' NOT ''NOT'' False]"

definition ringWires :: "Wire list" where
  "ringWires = [mkWire ''r'' ''r'' 0]"

text \<open>
  A chain of \<open>N\<close> NOT gates: gate \<open>k\<close> drives pin 0 of gate \<open>k + 1\<close>; gate 0 has no
  driver. The id of gate \<open>k\<close> is the letter g repeated \<open>k + 1\<close> times.
\<close>

definition chainId :: "nat \<Rightarrow> string" where
  "chainId k = replicate (Suc k) CHR ''g''"

definition chainState :: "nat \<Rightarrow> (nat \<Rightarrow> bool) \<Rightarrow> int CircuitNode list" where
  "chainState N vals = map (\<lambda>k. mkNode (chainId k) NOT (chainId k) (vals k)) [0..<N]"

definition chainNodes :: "nat \<Rightarrow> int CircuitNode list" where
  "chainNodes N = chainState N (\<lambda>k. False)"

definition chainWires :: "nat \<Rightarrow> Wire list" where
  "chainWires N = map (\<lambda>k. mkWire (chainId k) (chainId (Suc k)) 0) [0..<N - 1]"

text \<open>An OR gate that feeds itself on pin 1: once true it stays true.\<close>

definition latchNodes :: "bool \<Rightarrow> int CircuitNode list" where
  "latchNodes v = [mkNode ''a'' INPUT ''A'' False, mkNode ''g'' OR ''OR'' v, mkNode ''y'' OUTPUT ''Y'' False]"

definition latchWires :: "Wire list" where
  "latchWires = [mkWire ''a'' ''g'' 0, mkWire ''g'' ''g'' 1, mkWire ''g'' ''y'' 0]"



text \<open>A bank of \<open>k\<close> inputs with pairwise distinct ids and labels, and no wires.\<close>

definition inputBank :: "nat \<Rightarrow> int CircuitNode list" where
  "inputBank k = map (\<lambda>j. mkNode (chainId j) INPUT (chainId j) False) [0..<k]"





text \<open>An AND gate whose only driver is an input with label \<open>l\<close>, wired to pin 1.\<close>

definition pinOneNodes :: "string \<Rightarrow> int CircuitNode list" where
  "pinOneNodes l = [mkNode ''a'' INPUT l True, mkNode ''g'' AND ''G'' False,
                    mkNode ''y'' OUTPUT ''Y'' False]"

definition pinOneWires :: "Wire list" where
  "pinOneWires = [mkWire ''a'' ''g'' 1, mkWire ''g'' ''y'' 0]"

text \<open>
  An input whose label is the empty string into output \<open>Y\<close>, and an output \<open>Z\<close> that
  nothing drives.
\<close>

definition blankNodes :: "int CircuitNode list" where
  "blankNodes = [mkNode ''a'' INPUT '''' False, mkNode ''y'' OUTPUT ''Y'' False,
                 mkNode ''z'' OUTPUT ''Z'' False]"

definition blankWires :: "Wire list" where
  "blankWires = [mkWire ''a'' ''y'' 0]"

section \<open>The evaluator: one pass and the loop\<close>

lemmas eval_defs = mkNode_def mkWire_def pass_def stepNode_def getNodeInputs_def writePin_def
  evaluateGate_def slot_def setPin_def Let_def

lemma stepNode_fst:
  "fst (stepNode wires ns n) =
     (if node_type n = INPUT then n
      else n\<lparr>node_value := evaluateGate (node_type n) (getNodeInputs (node_id n) wires ns)\<rparr>)"
  by (simp add: stepNode_def Let_def)

lemma stepNode_snd: "snd (stepNode wires ns n) \<longleftrightarrow> fst (stepNode wires ns n) \<noteq> n"
proof (cases "node_type n = INPUT")
  case True
  then show ?thesis by (simp add: stepNode_def)
next
  case False
  let ?v = "evaluateGate (node_type n) (getNodeInputs (node_id n) wires ns)"
  have h: "n\<lparr>node_value := ?v\<rparr> = n \<longleftrightarrow> ?v = node_value n"
    by (cases n) auto
  have s: "snd (stepNode wires ns n) \<longleftrightarrow> ?v \<noteq> node_value n"
    using False by (simp add: stepNode_def Let_def)
  have f: "fst (stepNode wires ns n) = n\<lparr>node_value := ?v\<rparr>"
    using False by (simp add: stepNode_fst)
  show ?thesis unfolding s f h ..
qed

lemma pass_fst: "fst (pass wires ns) = map (\<lambda>n. fst (stepNode wires ns n)) ns"
  by (simp add: pass_def Let_def comp_def)

lemma pass_snd: "snd (pass wires ns) \<longleftrightarrow> fst (pass wires ns) \<noteq> ns"
proof -
  have "list_ex snd (map (stepNode wires ns) ns) \<longleftrightarrow> (\<exists>n\<in>set ns. fst (stepNode wires ns n) \<noteq> n)"
    by (simp add: list_ex_iff stepNode_snd)
  also have "\<dots> \<longleftrightarrow> map (\<lambda>n. fst (stepNode wires ns n)) ns \<noteq> ns"
    using map_eq_conv[of "\<lambda>n. fst (stepNode wires ns n)" ns id] by auto
  finally show ?thesis by (simp add: pass_def Let_def comp_def)
qed

lemma snapshot_0 [simp]: "snapshot 0 wires nodes = nodes"
  by (simp add: snapshot_def)

lemma snapshot_Suc: "snapshot (Suc k) wires nodes = fst (pass wires (snapshot k wires nodes))"
  by (simp add: snapshot_def)

lemma snapshot_Suc2: "snapshot (Suc k) wires nodes = snapshot k wires (fst (pass wires nodes))"
  by (simp add: snapshot_def funpow_Suc_right del: funpow.simps)

lemma snapshot_add: "snapshot (j + k) wires nodes = snapshot j wires (snapshot k wires nodes)"
  by (simp add: snapshot_def funpow_add)

lemma simulateLoop_char:
  "simulateLoop wires ns c it = (res, m) \<Longrightarrow> it \<le> MAX_ITERATIONS \<Longrightarrow>
     it \<le> m \<and> m \<le> MAX_ITERATIONS \<and> res = snapshot (m - it) wires ns
     \<and> ((c \<and> it < MAX_ITERATIONS) = (it < m))
     \<and> (\<forall>j. Suc j < m - it \<longrightarrow> snd (pass wires (snapshot j wires ns)))
     \<and> (it < m \<and> m < MAX_ITERATIONS \<longrightarrow> \<not> snd (pass wires (snapshot (m - it - 1) wires ns)))"
proof (induction wires ns c it arbitrary: res m rule: simulateLoop.induct)
  case (1 wires newNodes changed iterations)
  show ?case
  proof (cases "changed \<and> iterations < MAX_ITERATIONS")
    case False
    with "1.prems" show ?thesis by (auto simp: simulateLoop.simps)
  next
    case True
    obtain nx ch where p: "pass wires newNodes = (nx, ch)" by (cases "pass wires newNodes")
    from True p "1.prems"(1) have rec: "simulateLoop wires nx ch (iterations + 1) = (res, m)"
      by (simp add: simulateLoop.simps)
    from True have le: "iterations + 1 \<le> MAX_ITERATIONS" by simp
    note ih = "1.IH"[OF True p[symmetric] rec le]
    have nx: "nx = fst (pass wires newNodes)" and ch: "ch = snd (pass wires newNodes)" using p by simp_all
    from ih have m1: "iterations + 1 \<le> m" "m \<le> MAX_ITERATIONS" by simp_all
    then have d: "m - iterations = Suc (m - (iterations + 1))" by simp
    have r: "res = snapshot (m - iterations) wires newNodes"
      using ih by (simp add: d snapshot_Suc2 nx del: One_nat_def)
    have a: "\<forall>j. Suc j < m - iterations \<longrightarrow> snd (pass wires (snapshot j wires newNodes))"
    proof (intro allI impI)
      fix j assume j: "Suc j < m - iterations"
      show "snd (pass wires (snapshot j wires newNodes))"
      proof (cases j)
        case 0
        with j have "iterations + 1 < m" by simp
        with ih have "ch \<and> iterations + 1 < MAX_ITERATIONS" by simp
        with 0 ch show ?thesis by simp
      next
        case (Suc j')
        with j have "Suc j' < m - (iterations + 1)" by simp
        with ih have "snd (pass wires (snapshot j' wires nx))" by blast
        with Suc show ?thesis by (simp add: snapshot_Suc2 nx)
      qed
    qed
    have b: "iterations < m \<and> m < MAX_ITERATIONS \<longrightarrow> \<not> snd (pass wires (snapshot (m - iterations - 1) wires newNodes))"
    proof
      assume h: "iterations < m \<and> m < MAX_ITERATIONS"
      show "\<not> snd (pass wires (snapshot (m - iterations - 1) wires newNodes))"
      proof (cases "iterations + 1 < m")
        case True
        with ih h have "\<not> snd (pass wires (snapshot (m - (iterations + 1) - 1) wires nx))" by simp
        moreover from True have "m - iterations - 1 = Suc (m - (iterations + 1) - 1)" by simp
        ultimately show ?thesis by (simp add: snapshot_Suc2 nx del: One_nat_def)
      next
        case False
        with m1 have e: "m = iterations + 1" by simp
        with ih h have "\<not> ch" by simp
        with e ch show ?thesis by simp
      qed
    qed
    from True m1 r a b show ?thesis by simp
  qed
qed

lemma frame_stepNode: "frame (fst (stepNode wires ns n)) = frame n"
  by (simp add: stepNode_fst frame_def)

lemma frame_pass: "map frame (fst (pass wires ns)) = map frame ns"
  by (simp add: pass_fst frame_stepNode)

lemma frame_snapshot: "map frame (snapshot k wires nodes) = map frame nodes"
  by (induction k) (simp_all add: snapshot_Suc frame_pass)

lemma length_snapshot [simp]: "length (snapshot k wires nodes) = length nodes"
  using frame_snapshot[of k wires nodes, THEN arg_cong, of length] by simp

lemma simulateCircuit_snapshot:
  "simulateCircuit nodes wires = snapshot (passesRun nodes wires) wires nodes"
  using simulateLoop_char[of wires nodes True 0 "simulateCircuit nodes wires" "passesRun nodes wires"]
  by (simp add: simulateCircuit_def passesRun_def)

lemma frame_eq_iff:
  "frame r = frame n \<longleftrightarrow> r = n\<lparr>node_value := node_value r\<rparr>"
  by (cases r; cases n) (auto simp: frame_def)

lemma evaluate_frame_d:
  "length (simulateCircuit nodes wires) = length nodes
   \<and> (\<forall>i<length nodes.
        simulateCircuit nodes wires ! i = (nodes ! i)\<lparr>node_value := node_value (simulateCircuit nodes wires ! i)\<rparr>)"
proof -
  have m: "map frame (simulateCircuit nodes wires) = map frame nodes"
    by (simp add: simulateCircuit_snapshot frame_snapshot)
  then have l: "length (simulateCircuit nodes wires) = length nodes"
    using map_eq_imp_length_eq by blast
  have "\<forall>i<length nodes. frame (simulateCircuit nodes wires ! i) = frame (nodes ! i)"
  proof (intro allI impI)
    fix i assume "i < length nodes"
    with l m show "frame (simulateCircuit nodes wires ! i) = frame (nodes ! i)"
      by (metis nth_map)
  qed
  with l show ?thesis by (simp add: frame_eq_iff)
qed

lemma passesRun_bounds: "1 \<le> passesRun nodes wires \<and> passesRun nodes wires \<le> MAX_ITERATIONS"
  using simulateLoop_char[of wires nodes True 0 "simulateCircuit nodes wires" "passesRun nodes wires"]
  by (simp add: simulateCircuit_def passesRun_def MAX_ITERATIONS_def)

lemma passesRun_changed:
  "Suc j < passesRun nodes wires \<Longrightarrow> snd (pass wires (snapshot j wires nodes))"
  using simulateLoop_char[of wires nodes True 0 "simulateCircuit nodes wires" "passesRun nodes wires"]
  by (simp add: simulateCircuit_def passesRun_def)

lemma passesRun_last:
  "passesRun nodes wires < MAX_ITERATIONS \<Longrightarrow>
     \<not> snd (pass wires (snapshot (passesRun nodes wires - 1) wires nodes))"
  using simulateLoop_char[of wires nodes True 0 "simulateCircuit nodes wires" "passesRun nodes wires"]
  by (simp add: simulateCircuit_def passesRun_def MAX_ITERATIONS_def)

lemma passesRun_first_quiet:
  assumes k: "k < MAX_ITERATIONS"
    and q: "\<not> snd (pass wires (snapshot k wires nodes))"
    and c: "\<forall>j<k. snd (pass wires (snapshot j wires nodes))"
  shows "passesRun nodes wires = Suc k"
proof -
  let ?m = "passesRun nodes wires"
  have "\<not> Suc k < ?m" using passesRun_changed[of k nodes wires] q by blast
  then have le: "?m \<le> Suc k" by simp
  have "\<not> ?m < Suc k"
  proof
    assume lt: "?m < Suc k"
    with k have "?m < MAX_ITERATIONS" by simp
    then have "\<not> snd (pass wires (snapshot (?m - 1) wires nodes))" by (rule passesRun_last)
    moreover from lt passesRun_bounds[of nodes wires] have "?m - 1 < k" by arith
    ultimately show False using c by blast
  qed
  with le show ?thesis by simp
qed

lemma passesRun_cap:
  assumes c: "\<forall>j<MAX_ITERATIONS. snd (pass wires (snapshot j wires nodes))"
  shows "passesRun nodes wires = MAX_ITERATIONS"
proof (rule ccontr)
  let ?m = "passesRun nodes wires"
  assume "?m \<noteq> MAX_ITERATIONS"
  with passesRun_bounds[of nodes wires] have lt: "?m < MAX_ITERATIONS" by simp
  then have "\<not> snd (pass wires (snapshot (?m - 1) wires nodes))" by (rule passesRun_last)
  moreover from lt have "?m - 1 < MAX_ITERATIONS" by simp
  ultimately show False using c by blast
qed

lemma inv0: "pass inverterWires inverterNodes =
  ([mkNode ''a'' INPUT ''A'' False, mkNode ''n'' NOT ''NOT'' True, mkNode ''y'' OUTPUT ''Y'' False], True)"
  by (simp add: inverterNodes_def inverterWires_def eval_defs)

lemma inv1: "pass inverterWires [mkNode ''a'' INPUT ''A'' False, mkNode ''n'' NOT ''NOT'' True, mkNode ''y'' OUTPUT ''Y'' False] =
  ([mkNode ''a'' INPUT ''A'' False, mkNode ''n'' NOT ''NOT'' True, mkNode ''y'' OUTPUT ''Y'' True], True)"
  by (simp add: inverterNodes_def inverterWires_def eval_defs)

lemma inv2: "pass inverterWires [mkNode ''a'' INPUT ''A'' False, mkNode ''n'' NOT ''NOT'' True, mkNode ''y'' OUTPUT ''Y'' True] =
  ([mkNode ''a'' INPUT ''A'' False, mkNode ''n'' NOT ''NOT'' True, mkNode ''y'' OUTPUT ''Y'' True], False)"
  by (simp add: inverterNodes_def inverterWires_def eval_defs)

lemma ring_pass: "pass ringWires [mkNode ''r'' NOT ''NOT'' v] = ([mkNode ''r'' NOT ''NOT'' (\<not> v)], True)"
  by (simp add: ringWires_def eval_defs)

lemma ring_snapshot: "snapshot j ringWires ringNodes = [mkNode ''r'' NOT ''NOT'' (odd j)]"
  by (induction j) (simp_all add: snapshot_Suc ring_pass ringNodes_def)

text \<open>
  Claim C4. For every circuit, cyclic or not, \<^verbatim>\<open>simulateCircuit\<close> runs at least one and at
  most 50 passes and returns the snapshot of the last pass it ran. It stops right after
  the first pass in which no value changed; when every one of the 50 passes changed a
  value, it returns the snapshot after pass 50. The function is total and has no error
  result: \<^verbatim>\<open>simulateLoop\<close> is defined with a termination proof, and its result type is
  the plain node list.
\<close>

theorem evaluate_bounded:
  "1 \<le> passesRun nodes wires \<and> passesRun nodes wires \<le> 50
   \<and> simulateCircuit nodes wires = snapshot (passesRun nodes wires) wires nodes
   \<and> (\<forall>k<50. (\<forall>j<k. snd (pass wires (snapshot j wires nodes)))
                \<and> \<not> snd (pass wires (snapshot k wires nodes))
          \<longrightarrow> passesRun nodes wires = Suc k)
   \<and> ((\<forall>j<50. snd (pass wires (snapshot j wires nodes)))
          \<longrightarrow> passesRun nodes wires = 50 \<and> simulateCircuit nodes wires = snapshot 50 wires nodes)"
proof -
  have a: "1 \<le> passesRun nodes wires \<and> passesRun nodes wires \<le> 50"
    using passesRun_bounds[of nodes wires] by (simp add: MAX_ITERATIONS_def)
  have b: "\<forall>k<50. (\<forall>j<k. snd (pass wires (snapshot j wires nodes)))
                \<and> \<not> snd (pass wires (snapshot k wires nodes))
          \<longrightarrow> passesRun nodes wires = Suc k"
    using passesRun_first_quiet[of _ wires nodes] by (simp add: MAX_ITERATIONS_def)
  have c: "(\<forall>j<50. snd (pass wires (snapshot j wires nodes)))
          \<longrightarrow> passesRun nodes wires = 50 \<and> simulateCircuit nodes wires = snapshot 50 wires nodes"
    using passesRun_cap[of wires nodes] simulateCircuit_snapshot[of nodes wires]
    by (simp add: MAX_ITERATIONS_def)
  from a b c simulateCircuit_snapshot[of nodes wires] show ?thesis by blast
qed

theorem evaluate_bounded_witness:
  "passesRun inverterNodes inverterWires = 3
   \<and> simulateCircuit inverterNodes inverterWires = snapshot 3 inverterWires inverterNodes
   \<and> passesRun ringNodes ringWires = 50
   \<and> simulateCircuit ringNodes ringWires = [mkNode ''r'' NOT ''NOT'' False]"
proof -
  have s1: "snapshot (Suc 0) inverterWires inverterNodes =
      [mkNode ''a'' INPUT ''A'' False, mkNode ''n'' NOT ''NOT'' True, mkNode ''y'' OUTPUT ''Y'' False]"
    by (simp add: snapshot_Suc inv0)
  have s2: "snapshot 2 inverterWires inverterNodes =
      [mkNode ''a'' INPUT ''A'' False, mkNode ''n'' NOT ''NOT'' True, mkNode ''y'' OUTPUT ''Y'' True]"
    by (simp add: numeral_2_eq_2 snapshot_Suc inv0 inv1)
  have c: "\<forall>j<2. snd (pass inverterWires (snapshot j inverterWires inverterNodes))"
    by (simp add: numeral_2_eq_2 All_less_Suc s1 inv0 inv1)
  have q: "\<not> snd (pass inverterWires (snapshot 2 inverterWires inverterNodes))"
    by (simp add: s2 inv2)
  note t = evaluate_bounded[of inverterNodes inverterWires]
  have "(\<forall>j<2. snd (pass inverterWires (snapshot j inverterWires inverterNodes)))
          \<and> \<not> snd (pass inverterWires (snapshot 2 inverterWires inverterNodes))
        \<longrightarrow> passesRun inverterNodes inverterWires = Suc 2"
    using t[THEN conjunct2, THEN conjunct2, THEN conjunct2, THEN conjunct1, rule_format, of 2]
    by simp
  with c q have i: "passesRun inverterNodes inverterWires = 3" by simp
  have r: "\<forall>j<50. snd (pass ringWires (snapshot j ringWires ringNodes))"
    by (simp add: ring_snapshot ring_pass)
  note u = evaluate_bounded[of ringNodes ringWires]
  have o: "passesRun ringNodes ringWires = 50
           \<and> simulateCircuit ringNodes ringWires = snapshot 50 ringWires ringNodes"
    using u[THEN conjunct2, THEN conjunct2, THEN conjunct2, THEN conjunct2] r by (rule mp)
  have v: "simulateCircuit inverterNodes inverterWires
             = snapshot (passesRun inverterNodes inverterWires) inverterWires inverterNodes"
    using t[THEN conjunct2, THEN conjunct2, THEN conjunct1] .
  from i o v show ?thesis
    by (simp add: ring_snapshot)
qed

lemma frame_fields:
  "frame r = frame n \<Longrightarrow>
     node_id r = node_id n \<and> node_type r = node_type n \<and> node_label r = node_label n
     \<and> node_x r = node_x n \<and> node_y r = node_y n \<and> r = n\<lparr>node_value := node_value r\<rparr>"
  by (cases r; cases n) (simp add: frame_def)

lemma length_simulateCircuit: "length (simulateCircuit nodes wires) = length nodes"
  by (simp add: simulateCircuit_snapshot)

lemma simulateCircuit_frame:
  assumes "i < length nodes"
  shows "frame (simulateCircuit nodes wires ! i) = frame (nodes ! i)"
proof -
  have "map frame (simulateCircuit nodes wires) ! i = map frame nodes ! i"
    by (simp add: simulateCircuit_snapshot frame_snapshot)
  with assms show ?thesis by (simp add: length_simulateCircuit)
qed

text \<open>
  Claim C8. \<^verbatim>\<open>simulateCircuit\<close> returns a node list of the same length and order in which
  every node keeps its id, type, label and coordinates; only the value may differ. The
  arguments are values of the embedding: the source assigns to neither array nor to any
  of their elements (it copies with spread, \<^verbatim>\<open>map\<close> and \<^verbatim>\<open>filter\<close>, and its one
  in-place operation, \<^verbatim>\<open>sort\<close>, acts on the array \<^verbatim>\<open>filter\<close> has just returned), so
  \<open>nodes\<close> and \<open>wires\<close> on the right-hand sides are the caller's unchanged lists.
\<close>

theorem evaluate_frame:
  "length (simulateCircuit nodes wires) = length nodes
   \<and> (\<forall>i<length nodes.
        node_id (simulateCircuit nodes wires ! i) = node_id (nodes ! i)
        \<and> node_type (simulateCircuit nodes wires ! i) = node_type (nodes ! i)
        \<and> node_label (simulateCircuit nodes wires ! i) = node_label (nodes ! i)
        \<and> node_x (simulateCircuit nodes wires ! i) = node_x (nodes ! i)
        \<and> node_y (simulateCircuit nodes wires ! i) = node_y (nodes ! i)
        \<and> simulateCircuit nodes wires ! i
            = (nodes ! i)\<lparr>node_value := node_value (simulateCircuit nodes wires ! i)\<rparr>)"
  using frame_fields[OF simulateCircuit_frame, of _ nodes wires]
  by (simp add: length_simulateCircuit)

theorem evaluate_frame_witness:
  "(1::nat) < length inverterNodes
   \<and> length (simulateCircuit inverterNodes inverterWires) = 3
   \<and> node_id (simulateCircuit inverterNodes inverterWires ! 1) = ''n''
   \<and> node_type (simulateCircuit inverterNodes inverterWires ! 1) = NOT
   \<and> node_label (simulateCircuit inverterNodes inverterWires ! 1) = ''NOT''"
proof -
  have h: "(1::nat) < length inverterNodes" by (simp add: inverterNodes_def)
  from h evaluate_frame[of inverterNodes inverterWires] show ?thesis
    by (simp add: inverterNodes_def mkNode_def)
qed

lemma getNodeInputs_fold:
  "getNodeInputs nodeId wires allNodes =
     fold (writePin allNodes) (sort_key targetPinIndex (filter (\<lambda>w. targetNodeId w = nodeId) wires))
       [None, None]"
  by (simp add: getNodeInputs_def Let_def)

lemma pinWrites_append: "pinWrites k (xs @ ys) ns = pinWrites k xs ns @ pinWrites k ys ns"
  by (simp add: pinWrites_def)

lemma lastOpt_snoc [simp]: "lastOpt (xs @ [v]) = Some v"
  by (simp add: lastOpt_def)

lemma writePin_two:
  assumes "ins = [p, q]"
  shows "writePin ns w ins =
     [case lastOpt (pinWrites 0 [w] ns) of None \<Rightarrow> p | Some v \<Rightarrow> Some v,
      case lastOpt (pinWrites 1 [w] ns) of None \<Rightarrow> q | Some v \<Rightarrow> Some v]"
proof (cases "find (\<lambda>n. node_id n = sourceNodeId w) ns")
  case None
  then show ?thesis by (simp add: writePin_def pinWrites_def lastOpt_def assms)
next
  case (Some s)
  consider "targetPinIndex w = 0" | "targetPinIndex w = 1" | "targetPinIndex w < 0" | "2 \<le> targetPinIndex w"
    by linarith
  then show ?thesis
    by cases (simp_all add: writePin_def pinWrites_def lastOpt_def assms Some setPin_def)
qed

lemma fold_writePin:
  "fold (writePin ns) ws [p, q] =
     [case lastOpt (pinWrites 0 ws ns) of None \<Rightarrow> p | Some v \<Rightarrow> Some v,
      case lastOpt (pinWrites 1 ws ns) of None \<Rightarrow> q | Some v \<Rightarrow> Some v]"
proof (induction ws rule: rev_induct)
  case Nil
  show ?case by (simp add: pinWrites_def lastOpt_def)
next
  case (snoc w ws)
  have "fold (writePin ns) (ws @ [w]) [p, q] = writePin ns w (fold (writePin ns) ws [p, q])"
    by simp
  also have "\<dots> = [case lastOpt (pinWrites 0 [w] ns) of None \<Rightarrow>
                        (case lastOpt (pinWrites 0 ws ns) of None \<Rightarrow> p | Some v \<Rightarrow> Some v) | Some v \<Rightarrow> Some v,
                    case lastOpt (pinWrites 1 [w] ns) of None \<Rightarrow>
                        (case lastOpt (pinWrites 1 ws ns) of None \<Rightarrow> q | Some v \<Rightarrow> Some v) | Some v \<Rightarrow> Some v]"
    by (rule writePin_two) (rule snoc.IH)
  also have "\<dots> = [case lastOpt (pinWrites 0 (ws @ [w]) ns) of None \<Rightarrow> p | Some v \<Rightarrow> Some v,
      case lastOpt (pinWrites 1 (ws @ [w]) ns) of None \<Rightarrow> q | Some v \<Rightarrow> Some v]"
    by (simp add: pinWrites_append lastOpt_def split: option.splits)
  finally show ?case .
qed

lemma pinWrites_filter:
  "pinWrites k ws ns = pinWrites k (filter (\<lambda>w. targetPinIndex w = int k) ws) ns"
  by (induction ws) (simp_all add: pinWrites_def)

lemma pinWrites_sort: "pinWrites k (sort_key targetPinIndex ws) ns = pinWrites k ws ns"
  using pinWrites_filter[of k "sort_key targetPinIndex ws" ns] pinWrites_filter[of k ws ns]
  by (simp add: sort_key_stable)

lemma getNodeInputs_char:
  "getNodeInputs nodeId wires allNodes =
     [lastOpt (pinWrites 0 (filter (\<lambda>w. targetNodeId w = nodeId) wires) allNodes),
      lastOpt (pinWrites 1 (filter (\<lambda>w. targetNodeId w = nodeId) wires) allNodes)]"
  by (simp add: getNodeInputs_fold fold_writePin pinWrites_sort split: option.splits)

lemma asBool_iff: "p = Some True \<longleftrightarrow> asBool p"
  by (cases p) (auto simp: asBool_def)

lemma slot_pair: "slot [a, b] 0 = a" "slot [a, b] 1 = b"
  by (simp_all add: slot_def)

lemma evaluateGate_table:
  "evaluateGate ty [a, b] =
     (case ty of
        AND \<Rightarrow> asBool a \<and> asBool b
      | OR \<Rightarrow> asBool a \<or> asBool b
      | NOT \<Rightarrow> \<not> asBool a
      | NAND \<Rightarrow> \<not> (asBool a \<and> asBool b)
      | NOR \<Rightarrow> \<not> (asBool a \<or> asBool b)
      | XOR \<Rightarrow> (asBool a \<and> \<not> asBool b) \<or> (\<not> asBool a \<and> asBool b)
      | INPUT \<Rightarrow> asBool a
      | OUTPUT \<Rightarrow> asBool a)"
  unfolding evaluateGate_def Let_def slot_pair asBool_iff by (rule refl)

lemma pass_nth:
  assumes "i < length nodes"
  shows "fst (pass wires nodes) ! i =
     (if node_type (nodes ! i) = INPUT then nodes ! i
      else (nodes ! i)\<lparr>node_value :=
             evaluateGate (node_type (nodes ! i)) (getNodeInputs (node_id (nodes ! i)) wires nodes)\<rparr>)"
  using assms by (simp add: pass_fst stepNode_fst)

lemma pinWrites_single:
  "pinWrites k [w] ns =
     (if targetPinIndex w = int k
      then (case find (\<lambda>n. node_id n = sourceNodeId w) ns of Some s \<Rightarrow> [node_value s] | None \<Rightarrow> [])
      else [])"
  by (simp add: pinWrites_def)

lemma pinWrites_Cons: "pinWrites k (w # ws) ns = pinWrites k [w] ns @ pinWrites k ws ns"
  using pinWrites_append[of k "[w]" ws ns] by simp

lemma pinWrites_dangling:
  assumes "\<forall>w\<in>set ws. targetPinIndex w = int k \<longrightarrow> find (\<lambda>n. node_id n = sourceNodeId w) ns = None"
  shows "pinWrites k ws ns = []"
  using assms
proof (induction ws)
  case Nil
  show ?case by (simp add: pinWrites_def)
next
  case (Cons w ws)
  from Cons.prems have "targetPinIndex w = int k \<longrightarrow> find (\<lambda>n. node_id n = sourceNodeId w) ns = None"
    by simp
  then have "pinWrites k [w] ns = []" by (simp add: pinWrites_single)
  moreover have "\<forall>w\<in>set ws. targetPinIndex w = int k \<longrightarrow> find (\<lambda>n. node_id n = sourceNodeId w) ns = None"
    using Cons.prems by (meson list.set_intros(2))
  then have "pinWrites k ws ns = []" by (rule Cons.IH)
  ultimately show ?case using pinWrites_Cons[of k w ws ns] by simp
qed

lemma getNodeInputs_absent:
  assumes k: "k < 2"
    and d: "\<forall>w\<in>set wires. targetNodeId w = nodeId \<and> targetPinIndex w = int k
              \<longrightarrow> find (\<lambda>n. node_id n = sourceNodeId w) nodes = None"
  shows "slot (getNodeInputs nodeId wires nodes) k = None"
proof -
  have "pinWrites k (filter (\<lambda>w. targetNodeId w = nodeId) wires) nodes = []"
    by (rule pinWrites_dangling) (use d in auto)
  moreover from k have "k = 0 \<or> k = 1" by auto
  ultimately show ?thesis
    by (auto simp: getNodeInputs_char slot_def lastOpt_def)
qed

lemma getNodeInputs_driven:
  assumes k: "k < 2"
    and u: "filter (\<lambda>w. targetNodeId w = nodeId \<and> targetPinIndex w = int k) wires = [w]"
    and s: "find (\<lambda>n. node_id n = sourceNodeId w) nodes = Some src"
  shows "slot (getNodeInputs nodeId wires nodes) k = Some (node_value src)"
proof -
  have "pinWrites k (filter (\<lambda>w. targetNodeId w = nodeId) wires) nodes
      = pinWrites k (filter (\<lambda>w. targetPinIndex w = int k) (filter (\<lambda>w. targetNodeId w = nodeId) wires)) nodes"
    by (rule pinWrites_filter)
  also have "filter (\<lambda>w. targetPinIndex w = int k) (filter (\<lambda>w. targetNodeId w = nodeId) wires) = [w]"
    using u by (simp add: conj_commute)
  also have "pinWrites k [w] nodes = [node_value src]"
  proof -
    have "w \<in> set (filter (\<lambda>w. targetNodeId w = nodeId \<and> targetPinIndex w = int k) wires)"
      by (simp add: u)
    then have "targetPinIndex w = int k" by simp
    with s show ?thesis by (simp add: pinWrites_def)
  qed
  finally have e: "pinWrites k (filter (\<lambda>w. targetNodeId w = nodeId) wires) nodes = [node_value src]" .
  from k have "k = 0 \<or> k = 1" by auto
  with e show ?thesis
    by (auto simp: getNodeInputs_char slot_def lastOpt_def)
qed

text \<open>
  Claim C3. The gate functions on every pair of pin values, an absent pin reading as
  false: AND, OR, NAND, NOR, XOR, NOT and OUTPUT as in the table of the evaluator. One
  pass leaves an INPUT node as it is and gives every other node the value of its gate
  function on its two pins. A pin is absent when no wire targets it or when the source
  id of every wire that targets it matches no node; a pin targeted by one wire whose
  source is found carries the value of that source.
\<close>

theorem gate_semantics:
  "(evaluateGate AND [a, b] \<longleftrightarrow> asBool a \<and> asBool b)
   \<and> (evaluateGate OR [a, b] \<longleftrightarrow> asBool a \<or> asBool b)
   \<and> (evaluateGate NAND [a, b] \<longleftrightarrow> \<not> (asBool a \<and> asBool b))
   \<and> (evaluateGate NOR [a, b] \<longleftrightarrow> \<not> (asBool a \<or> asBool b))
   \<and> (evaluateGate XOR [a, b] \<longleftrightarrow> (asBool a \<and> \<not> asBool b) \<or> (\<not> asBool a \<and> asBool b))
   \<and> (evaluateGate NOT [a, b] \<longleftrightarrow> \<not> asBool a)
   \<and> (evaluateGate OUTPUT [a, b] \<longleftrightarrow> asBool a)
   \<and> asBool None = False
   \<and> (\<forall>i<length nodes.
         fst (pass wires nodes) ! i =
           (if node_type (nodes ! i) = INPUT then nodes ! i
            else (nodes ! i)\<lparr>node_value :=
                   evaluateGate (node_type (nodes ! i))
                     (getNodeInputs (node_id (nodes ! i)) wires nodes)\<rparr>))
   \<and> length (getNodeInputs nodeId wires nodes) = 2
   \<and> (\<forall>k<2. (\<forall>w\<in>set wires. targetNodeId w = nodeId \<and> targetPinIndex w = int k
                  \<longrightarrow> find (\<lambda>n. node_id n = sourceNodeId w) nodes = None)
          \<longrightarrow> slot (getNodeInputs nodeId wires nodes) k = None)
   \<and> (\<forall>k<2. \<forall>w src.
          filter (\<lambda>w. targetNodeId w = nodeId \<and> targetPinIndex w = int k) wires = [w]
          \<and> find (\<lambda>n. node_id n = sourceNodeId w) nodes = Some src
          \<longrightarrow> slot (getNodeInputs nodeId wires nodes) k = Some (node_value src))"
proof (intro conjI)
  show "length (getNodeInputs nodeId wires nodes) = 2"
    by (simp add: getNodeInputs_char)
  show "asBool None = False" by (simp add: asBool_def)
  show "\<forall>i<length nodes.
         fst (pass wires nodes) ! i =
           (if node_type (nodes ! i) = INPUT then nodes ! i
            else (nodes ! i)\<lparr>node_value :=
                   evaluateGate (node_type (nodes ! i))
                     (getNodeInputs (node_id (nodes ! i)) wires nodes)\<rparr>)"
    by (intro allI impI) (rule pass_nth)
  show "\<forall>k<2. (\<forall>w\<in>set wires. targetNodeId w = nodeId \<and> targetPinIndex w = int k
                  \<longrightarrow> find (\<lambda>n. node_id n = sourceNodeId w) nodes = None)
          \<longrightarrow> slot (getNodeInputs nodeId wires nodes) k = None"
    by (intro allI impI) (rule getNodeInputs_absent, assumption+)
  show "\<forall>k<2. \<forall>w src.
          filter (\<lambda>w. targetNodeId w = nodeId \<and> targetPinIndex w = int k) wires = [w]
          \<and> find (\<lambda>n. node_id n = sourceNodeId w) nodes = Some src
          \<longrightarrow> slot (getNodeInputs nodeId wires nodes) k = Some (node_value src)"
    by (intro allI impI, elim conjE) (rule getNodeInputs_driven, assumption+)
qed (simp_all only: evaluateGate_table GateType.case)

theorem gate_semantics_witness:
  "(0::nat) < 2 \<and> (1::nat) < length inverterNodes
   \<and> slot (getNodeInputs ''n'' inverterWires inverterNodes) 0 = Some False
   \<and> slot (getNodeInputs ''n'' inverterWires inverterNodes) 1 = None
   \<and> fst (pass inverterWires inverterNodes) ! 1 = mkNode ''n'' NOT ''NOT'' True"
proof -
  note t = gate_semantics[of "Some True" None inverterNodes inverterWires "''n''"]
  have driven: "\<forall>k<2. \<forall>w src.
          filter (\<lambda>w. targetNodeId w = ''n'' \<and> targetPinIndex w = int k) inverterWires = [w]
          \<and> find (\<lambda>n. node_id n = sourceNodeId w) inverterNodes = Some src
          \<longrightarrow> slot (getNodeInputs ''n'' inverterWires inverterNodes) k = Some (node_value src)"
    using t by (elim conjE)
  have absent: "\<forall>k<2. (\<forall>w\<in>set inverterWires. targetNodeId w = ''n'' \<and> targetPinIndex w = int k
                  \<longrightarrow> find (\<lambda>n. node_id n = sourceNodeId w) inverterNodes = None)
          \<longrightarrow> slot (getNodeInputs ''n'' inverterWires inverterNodes) k = None"
    using t by (elim conjE)
  have step: "\<forall>i<length inverterNodes.
         fst (pass inverterWires inverterNodes) ! i =
           (if node_type (inverterNodes ! i) = INPUT then inverterNodes ! i
            else (inverterNodes ! i)\<lparr>node_value :=
                   evaluateGate (node_type (inverterNodes ! i))
                     (getNodeInputs (node_id (inverterNodes ! i)) inverterWires inverterNodes)\<rparr>)"
    using t by (elim conjE)
  have not: "evaluateGate NOT [Some True, None] \<longleftrightarrow> \<not> asBool (Some True)"
    using t by (elim conjE)
  have h0: "(0::nat) < 2" by simp
  have h1: "(1::nat) < length inverterNodes" by (simp add: inverterNodes_def)
  have f: "filter (\<lambda>w. targetNodeId w = ''n'' \<and> targetPinIndex w = int 0) inverterWires
             = [mkWire ''a'' ''n'' 0]
           \<and> find (\<lambda>n. node_id n = sourceNodeId (mkWire ''a'' ''n'' 0)) inverterNodes
             = Some (mkNode ''a'' INPUT ''A'' False)"
    by (simp add: inverterWires_def inverterNodes_def mkWire_def mkNode_def)
  have p0: "slot (getNodeInputs ''n'' inverterWires inverterNodes) 0 = Some False"
    using driven[rule_format, OF h0 f] by (simp add: mkNode_def)
  have d: "\<forall>w\<in>set inverterWires. targetNodeId w = ''n'' \<and> targetPinIndex w = int 1
                  \<longrightarrow> find (\<lambda>n. node_id n = sourceNodeId w) inverterNodes = None"
    by (simp add: inverterWires_def mkWire_def)
  have p1: "slot (getNodeInputs ''n'' inverterWires inverterNodes) 1 = None"
    using absent[rule_format, of 1] d by simp
  have s: "fst (pass inverterWires inverterNodes) ! 1 = mkNode ''n'' NOT ''NOT'' True"
    using step[rule_format, OF h1] by (simp add: inv0)
  from h0 h1 p0 p1 s show ?thesis by blast
qed

section \<open>Acyclic circuits settle\<close>

lemma ancestors_card_less:
  assumes fin: "finite r" and acy: "acyclic r" and e: "(a, b) \<in> r"
  shows "card {y. (y, a) \<in> r\<^sup>+} < card {y. (y, b) \<in> r\<^sup>+}"
proof (rule psubset_card_mono)
  have "{y. (y, b) \<in> r\<^sup>+} \<subseteq> Domain r"
    by (auto simp: Domain_iff dest: tranclD)
  moreover have "finite (Domain r)" using fin by (rule finite_Domain)
  ultimately show "finite {y. (y, b) \<in> r\<^sup>+}" by (rule finite_subset)
next
  have "a \<in> {y. (y, b) \<in> r\<^sup>+}" using e by auto
  moreover have "a \<notin> {y. (y, a) \<in> r\<^sup>+}" using acy by (auto simp: acyclic_def)
  moreover have "{y. (y, a) \<in> r\<^sup>+} \<subseteq> {y. (y, b) \<in> r\<^sup>+}"
    using e by (auto intro: trancl_into_trancl)
  ultimately show "{y. (y, a) \<in> r\<^sup>+} \<subset> {y. (y, b) \<in> r\<^sup>+}" by blast
qed

lemma ancestors_card_bound:
  assumes fin: "finite A" and acy: "acyclic r" and sub: "r \<subseteq> A \<times> A" and x: "x \<in> A"
  shows "card {y. (y, x) \<in> r\<^sup>+} < card A"
proof (rule psubset_card_mono[OF fin])
  have "{y. (y, x) \<in> r\<^sup>+} \<subseteq> A"
    using sub by (auto dest!: tranclD)
  moreover have "x \<notin> {y. (y, x) \<in> r\<^sup>+}" using acy by (auto simp: acyclic_def)
  ultimately show "{y. (y, x) \<in> r\<^sup>+} \<subset> A" using x by blast
qed

text \<open>Topological levels for the wires between existing nodes.\<close>
lemma levels_exist:
  assumes acy: "acyclic (wireGraph wires)"
  shows "\<exists>level :: string \<Rightarrow> nat.
           (\<forall>w\<in>set wires. sourceNodeId w \<in> node_id ` set nodes \<and> targetNodeId w \<in> node_id ` set nodes
                \<longrightarrow> level (sourceNodeId w) < level (targetNodeId w))
         \<and> (\<forall>n\<in>set nodes. level (node_id n) < length nodes)"
proof -
  define A where "A = node_id ` set nodes"
  define r where "r = wireGraph wires \<inter> A \<times> A"
  define level where "level x = card {y. (y, x) \<in> r\<^sup>+}" for x
  have finA: "finite A" by (simp add: A_def)
  have sub: "r \<subseteq> A \<times> A" by (simp add: r_def)
  with finA have fin: "finite r" by (meson finite_SigmaI finite_subset)
  have acyr: "acyclic r" using acy by (rule acyclic_subset) (simp add: r_def)
  have "card A \<le> length nodes" unfolding A_def
    by (metis card_image_le card_length le_trans List.finite_set)
  then have b: "\<forall>n\<in>set nodes. level (node_id n) < length nodes"
    using ancestors_card_bound[OF finA acyr sub] unfolding level_def A_def
    by (meson imageI less_le_trans)
  have "\<forall>w\<in>set wires. sourceNodeId w \<in> A \<and> targetNodeId w \<in> A
                \<longrightarrow> level (sourceNodeId w) < level (targetNodeId w)"
  proof (intro ballI impI)
    fix w assume w: "w \<in> set wires" and m: "sourceNodeId w \<in> A \<and> targetNodeId w \<in> A"
    then have "(sourceNodeId w, targetNodeId w) \<in> r"
      by (auto simp: r_def wireGraph_def)
    then show "level (sourceNodeId w) < level (targetNodeId w)"
      unfolding level_def by (rule ancestors_card_less[OF fin acyr])
  qed
  with b show ?thesis unfolding A_def by blast
qed

lemma frame_id: "frame a = frame b \<Longrightarrow> node_id a = node_id b"
  using frame_fields by blast

lemma frame_type: "frame a = frame b \<Longrightarrow> node_type a = node_type b"
  using frame_fields by blast

lemma frame_update: "frame a = frame b \<Longrightarrow> a\<lparr>node_value := v\<rparr> = b\<lparr>node_value := v\<rparr>"
  by (cases a; cases b) (simp add: frame_def)

lemma snapshot_frame_nth:
  assumes "i < length nodes"
  shows "frame (snapshot k wires nodes ! i) = frame (nodes ! i)"
proof -
  have "map frame (snapshot k wires nodes) ! i = map frame nodes ! i"
    by (simp add: frame_snapshot)
  with assms show ?thesis by simp
qed

text \<open>Two lists with the same ids at every position resolve an id at the same position.\<close>
lemma find_same_ids:
  assumes ids: "map node_id xs = map node_id ys"
  shows "(find (\<lambda>n. node_id n = s) xs = None \<and> find (\<lambda>n. node_id n = s) ys = None)
       \<or> (\<exists>q<length xs. find (\<lambda>n. node_id n = s) xs = Some (xs ! q)
             \<and> find (\<lambda>n. node_id n = s) ys = Some (ys ! q) \<and> node_id (xs ! q) = s)"
proof -
  have len: "length xs = length ys" using ids by (rule map_eq_imp_length_eq)
  have nth: "node_id (xs ! j) = node_id (ys ! j)" if "j < length xs" for j
    using that ids len by (metis nth_map)
  show ?thesis
  proof (cases "find (\<lambda>n. node_id n = s) xs")
    case None
    then have "\<forall>n\<in>set xs. node_id n \<noteq> s" by (simp add: find_None_iff)
    then have "\<forall>j<length xs. node_id (xs ! j) \<noteq> s" by simp
    with nth len have "\<forall>j<length ys. node_id (ys ! j) \<noteq> s" by simp
    then have "\<forall>n\<in>set ys. node_id n \<noteq> s" by (metis in_set_conv_nth)
    then have "find (\<lambda>n. node_id n = s) ys = None" by (simp add: find_None_iff)
    with None show ?thesis by simp
  next
    case (Some a)
    then obtain q where q: "q < length xs" "node_id (xs ! q) = s" "a = xs ! q"
      "\<forall>j<q. node_id (xs ! j) \<noteq> s"
      unfolding find_Some_iff by blast
    have "q < length ys" "node_id (ys ! q) = s" "\<forall>j<q. node_id (ys ! j) \<noteq> s"
      using q nth len by auto
    then have "find (\<lambda>n. node_id n = s) ys = Some (ys ! q)"
      unfolding find_Some_iff by blast
    with Some q show ?thesis by blast
  qed
qed

lemma case_find_value:
  "(case find P ns of Some s \<Rightarrow> [node_value s] | None \<Rightarrow> [])
     = (case map_option node_value (find P ns) of Some v \<Rightarrow> [v] | None \<Rightarrow> [])"
  by (cases "find P ns") simp_all

lemma pinWrites_cong:
  assumes "\<forall>w\<in>set ws. map_option node_value (find (\<lambda>n. node_id n = sourceNodeId w) ns)
                       = map_option node_value (find (\<lambda>n. node_id n = sourceNodeId w) ns')"
  shows "pinWrites k ws ns = pinWrites k ws ns'"
proof -
  have "map (\<lambda>w. if targetPinIndex w = int k
                       then (case find (\<lambda>n. node_id n = sourceNodeId w) ns of
                               Some s \<Rightarrow> [node_value s] | None \<Rightarrow> [])
                       else []) ws
      = map (\<lambda>w. if targetPinIndex w = int k
                       then (case find (\<lambda>n. node_id n = sourceNodeId w) ns' of
                               Some s \<Rightarrow> [node_value s] | None \<Rightarrow> [])
                       else []) ws"
  proof (rule map_cong[OF refl])
    fix w assume "w \<in> set ws"
    with assms have e: "map_option node_value (find (\<lambda>n. node_id n = sourceNodeId w) ns)
                       = map_option node_value (find (\<lambda>n. node_id n = sourceNodeId w) ns')"
      by blast
    show "(if targetPinIndex w = int k
                       then (case find (\<lambda>n. node_id n = sourceNodeId w) ns of
                               Some s \<Rightarrow> [node_value s] | None \<Rightarrow> [])
                       else [])
        = (if targetPinIndex w = int k
                       then (case find (\<lambda>n. node_id n = sourceNodeId w) ns' of
                               Some s \<Rightarrow> [node_value s] | None \<Rightarrow> [])
                       else [])"
      by (simp only: case_find_value e)
  qed
  then show ?thesis unfolding pinWrites_def by (rule arg_cong)
qed

lemma getNodeInputs_cong:
  assumes "\<forall>w\<in>set wires. targetNodeId w = nodeId \<longrightarrow>
             map_option node_value (find (\<lambda>n. node_id n = sourceNodeId w) ns)
           = map_option node_value (find (\<lambda>n. node_id n = sourceNodeId w) ns')"
  shows "getNodeInputs nodeId wires ns = getNodeInputs nodeId wires ns'"
proof -
  have "pinWrites k (filter (\<lambda>w. targetNodeId w = nodeId) wires) ns
      = pinWrites k (filter (\<lambda>w. targetNodeId w = nodeId) wires) ns'" for k
    by (rule pinWrites_cong) (use assms in simp)
  then show ?thesis by (simp add: getNodeInputs_char)
qed

lemma snapshot_input_const:
  assumes i: "i < length nodes" and t: "node_type (nodes ! i) = INPUT"
  shows "snapshot k wires nodes ! i = nodes ! i"
proof (induction k)
  case 0
  show ?case by simp
next
  case (Suc k)
  have "node_type (snapshot k wires nodes ! i) = INPUT"
    using frame_type[OF snapshot_frame_nth[OF i, of k wires]] t by simp
  then have "snapshot (Suc k) wires nodes ! i = snapshot k wires nodes ! i"
    using i by (simp add: snapshot_Suc pass_nth)
  with Suc show ?case by simp
qed

lemma ids_snapshot: "map node_id (snapshot k wires nodes) = map node_id nodes"
proof -
  have "map node_id (map frame xs) = map node_id xs" for xs :: "'a CircuitNode list"
    by (simp add: frame_def)
  then show ?thesis by (metis frame_snapshot)
qed

lemma snapshot_Suc_nth:
  assumes i: "i < length nodes"
  shows "snapshot (Suc k) wires nodes ! i =
     (if node_type (nodes ! i) = INPUT then nodes ! i
      else (nodes ! i)\<lparr>node_value :=
             evaluateGate (node_type (nodes ! i))
               (getNodeInputs (node_id (nodes ! i)) wires (snapshot k wires nodes))\<rparr>)"
proof (cases "node_type (nodes ! i) = INPUT")
  case True
  with i show ?thesis by (simp add: snapshot_input_const)
next
  case False
  let ?S = "snapshot k wires nodes"
  have f: "frame (?S ! i) = frame (nodes ! i)" using i by (rule snapshot_frame_nth)
  have "snapshot (Suc k) wires nodes ! i
      = (?S ! i)\<lparr>node_value :=
             evaluateGate (node_type (?S ! i)) (getNodeInputs (node_id (?S ! i)) wires ?S)\<rparr>"
    using i False frame_type[OF f] by (simp add: snapshot_Suc pass_nth)
  also have "\<dots> = (nodes ! i)\<lparr>node_value :=
             evaluateGate (node_type (nodes ! i)) (getNodeInputs (node_id (nodes ! i)) wires ?S)\<rparr>"
    using frame_update[OF f] frame_type[OF f] frame_id[OF f] by simp
  finally show ?thesis using False by simp
qed

lemma stable_by_level:
  fixes level :: "string \<Rightarrow> nat"
  assumes lv: "\<forall>w\<in>set wires. sourceNodeId w \<in> node_id ` set nodes \<and> targetNodeId w \<in> node_id ` set nodes
                \<longrightarrow> level (sourceNodeId w) < level (targetNodeId w)"
  shows "i < length nodes \<Longrightarrow> level (node_id (nodes ! i)) \<le> m \<Longrightarrow>
         snapshot (Suc m) wires nodes ! i = snapshot (Suc (level (node_id (nodes ! i)))) wires nodes ! i"
proof (induction "level (node_id (nodes ! i))" arbitrary: i m rule: less_induct)
  case less
  let ?L = "level (node_id (nodes ! i))"
  let ?id = "node_id (nodes ! i)"
  have i: "i < length nodes" by (rule less.prems(1))
  have idA: "?id \<in> node_id ` set nodes" using i by simp
  have "getNodeInputs ?id wires (snapshot m wires nodes) = getNodeInputs ?id wires (snapshot ?L wires nodes)"
  proof (rule getNodeInputs_cong, intro ballI impI)
    fix w assume w: "w \<in> set wires" and t: "targetNodeId w = ?id"
    let ?P = "\<lambda>n. node_id n = sourceNodeId w"
    have ids: "map node_id (snapshot m wires nodes) = map node_id (snapshot ?L wires nodes)"
      by (simp add: ids_snapshot)
    from find_same_ids[OF ids, of "sourceNodeId w"]
    show "map_option node_value (find ?P (snapshot m wires nodes))
        = map_option node_value (find ?P (snapshot ?L wires nodes))"
    proof
      assume "find ?P (snapshot m wires nodes) = None \<and> find ?P (snapshot ?L wires nodes) = None"
      then show ?thesis by simp
    next
      assume "\<exists>q<length (snapshot m wires nodes).
                find ?P (snapshot m wires nodes) = Some (snapshot m wires nodes ! q)
              \<and> find ?P (snapshot ?L wires nodes) = Some (snapshot ?L wires nodes ! q)
              \<and> node_id (snapshot m wires nodes ! q) = sourceNodeId w"
      then obtain q where q: "q < length nodes"
        and fm: "find ?P (snapshot m wires nodes) = Some (snapshot m wires nodes ! q)"
        and fl: "find ?P (snapshot ?L wires nodes) = Some (snapshot ?L wires nodes ! q)"
        and sq: "node_id (snapshot m wires nodes ! q) = sourceNodeId w"
        by auto
      have "node_id (nodes ! q) = sourceNodeId w"
        using frame_id[OF snapshot_frame_nth[OF q, of m wires]] sq by simp
      then have srcq: "sourceNodeId w = node_id (nodes ! q)" by simp
      then have "sourceNodeId w \<in> node_id ` set nodes" using q by simp
      with lv w t idA have lt: "level (node_id (nodes ! q)) < ?L" using srcq by auto
      from lt less.prems(2) have "snapshot m wires nodes ! q = snapshot ?L wires nodes ! q"
      proof -
        obtain m' where m': "m = Suc m'" using lt less.prems(2) by (cases m) auto
        obtain l' where l': "?L = Suc l'" using lt by (cases ?L) auto
        have a: "snapshot (Suc m') wires nodes ! q = snapshot (Suc (level (node_id (nodes ! q)))) wires nodes ! q"
          using less.hyps[OF lt q, of m'] lt less.prems(2) m' by simp
        have b: "snapshot (Suc l') wires nodes ! q = snapshot (Suc (level (node_id (nodes ! q)))) wires nodes ! q"
          using less.hyps[OF lt q, of l'] lt l' by simp
        from a b m' l' show ?thesis by simp
      qed
      with fm fl show ?thesis by simp
    qed
  qed
  then show ?case using i by (simp add: snapshot_Suc_nth)
qed

lemma acyclic_stable:
  assumes acy: "acyclic (wireGraph wires)" and m: "length nodes \<le> m"
  shows "snapshot (Suc m) wires nodes = snapshot m wires nodes"
proof -
  obtain level :: "string \<Rightarrow> nat" where
    lv: "\<forall>w\<in>set wires. sourceNodeId w \<in> node_id ` set nodes \<and> targetNodeId w \<in> node_id ` set nodes
                \<longrightarrow> level (sourceNodeId w) < level (targetNodeId w)"
    and bd: "\<forall>n\<in>set nodes. level (node_id n) < length nodes"
    using levels_exist[OF acy, of nodes] by blast
  show ?thesis
  proof (rule nth_equalityI)
    show "length (snapshot (Suc m) wires nodes) = length (snapshot m wires nodes)" by simp
  next
    fix i assume "i < length (snapshot (Suc m) wires nodes)"
    then have i: "i < length nodes" by simp
    let ?L = "level (node_id (nodes ! i))"
    from bd i have L: "?L < length nodes" by simp
    with m obtain m' where m': "m = Suc m'" by (cases m) auto
    have "snapshot (Suc m) wires nodes ! i = snapshot (Suc ?L) wires nodes ! i"
      using stable_by_level[OF lv i, of m] L m by simp
    moreover have "snapshot (Suc m') wires nodes ! i = snapshot (Suc ?L) wires nodes ! i"
      using stable_by_level[OF lv i, of m'] L m m' by simp
    ultimately show "snapshot (Suc m) wires nodes ! i = snapshot m wires nodes ! i"
      using m' by simp
  qed
qed

lemma fixed_snapshot:
  assumes "snapshot (Suc k) wires nodes = snapshot k wires nodes"
  shows "snapshot (k + j) wires nodes = snapshot k wires nodes"
proof (induction j)
  case 0
  show ?case by simp
next
  case (Suc j)
  have "snapshot (k + Suc j) wires nodes = fst (pass wires (snapshot (k + j) wires nodes))"
    by (simp add: snapshot_Suc)
  also have "\<dots> = snapshot (Suc k) wires nodes" by (simp add: Suc snapshot_Suc)
  finally show ?case using assms by simp
qed

lemma fixed_snapshot_le:
  assumes "snapshot (Suc k) wires nodes = snapshot k wires nodes" and "k \<le> m"
  shows "snapshot m wires nodes = snapshot k wires nodes"
  using fixed_snapshot[OF assms(1), of "m - k"] assms(2) by simp

lemma quiet_iff: "\<not> snd (pass wires (snapshot k wires nodes))
    \<longleftrightarrow> snapshot (Suc k) wires nodes = snapshot k wires nodes"
  by (simp add: pass_snd snapshot_Suc)

lemma acyclic_result:
  assumes acy: "acyclic (wireGraph wires)" and n: "length nodes \<le> MAX_ITERATIONS"
  shows "simulateCircuit nodes wires = snapshot (length nodes) wires nodes"
    and "passesRun nodes wires \<le> Suc (length nodes)"
proof -
  let ?n = "length nodes"
  let ?m = "passesRun nodes wires"
  have st: "snapshot (Suc ?n) wires nodes = snapshot ?n wires nodes"
    using acy by (rule acyclic_stable) simp
  show le: "?m \<le> Suc ?n"
  proof (rule ccontr)
    assume "\<not> ?m \<le> Suc ?n"
    then have "Suc ?n < ?m" by simp
    then have "snd (pass wires (snapshot ?n wires nodes))" by (rule passesRun_changed)
    with st show False by (simp add: quiet_iff[symmetric])
  qed
  have "snapshot ?m wires nodes = snapshot ?n wires nodes"
  proof (cases "?n \<le> ?m")
    case True
    with st show ?thesis by (rule fixed_snapshot_le)
  next
    case False
    then have lt: "?m < ?n" by simp
    with n have "?m < MAX_ITERATIONS" by simp
    then have "\<not> snd (pass wires (snapshot (?m - 1) wires nodes))" by (rule passesRun_last)
    moreover from passesRun_bounds[of nodes wires] have s: "Suc (?m - 1) = ?m" by simp
    ultimately have q: "snapshot (Suc (?m - 1)) wires nodes = snapshot (?m - 1) wires nodes"
      by (simp only: quiet_iff)
    have "snapshot ?n wires nodes = snapshot (?m - 1) wires nodes"
      using q by (rule fixed_snapshot_le) (use lt in simp)
    with q s show ?thesis by simp
  qed
  then show "simulateCircuit nodes wires = snapshot ?n wires nodes"
    by (simp add: simulateCircuit_snapshot)
qed

lemma simulateCircuit_fixed:
  assumes "fst (pass wires ns) = ns"
  shows "simulateCircuit ns wires = ns"
proof -
  have "snapshot (Suc 0) wires ns = snapshot 0 wires ns" using assms by (simp add: snapshot_Suc)
  then have "snapshot (passesRun ns wires) wires ns = snapshot 0 wires ns"
    by (rule fixed_snapshot_le) simp
  then show ?thesis by (simp add: simulateCircuit_snapshot)
qed

text \<open>
  Claim C1, as amended. For a circuit whose wire graph is acyclic, the snapshot after
  \<open>|nodes|\<close> passes is a fixed point of the pass. When the circuit has at most 50 nodes,
  \<^verbatim>\<open>simulateCircuit\<close> returns that snapshot: one more pass changes no value, the loop
  itself runs at most \<open>|nodes| + 1\<close> passes (the last one only observing that nothing
  changed), and a second call on the result returns the result unchanged.
\<close>

theorem acyclic_fixed_point:
  assumes "acyclic (wireGraph wires)"
  shows "fst (pass wires (snapshot (length nodes) wires nodes)) = snapshot (length nodes) wires nodes
       \<and> (length nodes \<le> 50 \<longrightarrow>
            simulateCircuit nodes wires = snapshot (length nodes) wires nodes
          \<and> passesRun nodes wires \<le> length nodes + 1
          \<and> pass wires (simulateCircuit nodes wires) = (simulateCircuit nodes wires, False)
          \<and> simulateCircuit (simulateCircuit nodes wires) wires = simulateCircuit nodes wires)"
proof (intro conjI impI)
  have st: "snapshot (Suc (length nodes)) wires nodes = snapshot (length nodes) wires nodes"
    using assms by (rule acyclic_stable) simp
  then show fx: "fst (pass wires (snapshot (length nodes) wires nodes)) = snapshot (length nodes) wires nodes"
    by (simp add: snapshot_Suc)
  assume "length nodes \<le> 50"
  then have n: "length nodes \<le> MAX_ITERATIONS" by (simp add: MAX_ITERATIONS_def)
  note r = acyclic_result[OF assms n]
  show "simulateCircuit nodes wires = snapshot (length nodes) wires nodes" by (rule r(1))
  show "passesRun nodes wires \<le> length nodes + 1" using r(2) by simp
  have f: "fst (pass wires (simulateCircuit nodes wires)) = simulateCircuit nodes wires"
    using fx by (simp add: r(1))
  then have "\<not> snd (pass wires (simulateCircuit nodes wires))" by (simp add: pass_snd)
  with f show "pass wires (simulateCircuit nodes wires) = (simulateCircuit nodes wires, False)"
    by (simp add: prod_eq_iff)
  from f show "simulateCircuit (simulateCircuit nodes wires) wires = simulateCircuit nodes wires"
    by (rule simulateCircuit_fixed)
qed

lemma acyclic_by_level:
  fixes f :: "string \<Rightarrow> nat"
  assumes "\<forall>w\<in>set wires. f (sourceNodeId w) < f (targetNodeId w)"
  shows "acyclic (wireGraph wires)"
proof -
  have "acyclic ((wireGraph wires)\<inverse>)"
    by (rule acyclicI_order[where f = f]) (use assms in \<open>auto simp: wireGraph_def\<close>)
  then show ?thesis by simp
qed

lemma chainId_inj [simp]: "chainId j = chainId k \<longleftrightarrow> j = k"
  by (auto simp: chainId_def dest: arg_cong[where f = length])

lemma chain_acyclic: "acyclic (wireGraph (chainWires N))"
  by (rule acyclic_by_level[where f = length]) (auto simp: chainWires_def mkWire_def chainId_def)

lemma chain_find:
  assumes "j < N"
  shows "find (\<lambda>n. node_id n = chainId j) (chainState N vals)
           = Some (mkNode (chainId j) NOT (chainId j) (vals j))"
proof -
  let ?xs = "chainState N vals"
  have l: "j < length ?xs" using assms by (simp add: chainState_def)
  have n: "?xs ! i = mkNode (chainId i) NOT (chainId i) (vals i)" if "i < N" for i
    using that by (simp add: chainState_def)
  have a: "node_id (?xs ! j) = chainId j" using assms by (simp add: n mkNode_def)
  have b: "\<forall>i<j. node_id (?xs ! i) \<noteq> chainId j"
  proof (intro allI impI)
    fix i assume "i < j"
    with assms have "i < N" "i \<noteq> j" by simp_all
    then show "node_id (?xs ! i) \<noteq> chainId j" by (simp add: n mkNode_def)
  qed
  have "find (\<lambda>n. node_id n = chainId j) ?xs = Some (?xs ! j)"
    unfolding find_Some_iff using l a b by blast
  with assms show ?thesis by (simp add: n)
qed

lemma chain_filter:
  "filter (\<lambda>w. targetNodeId w = chainId k) (chainWires N)
     = (if 0 < k \<and> k < N then [mkWire (chainId (k - 1)) (chainId k) 0] else [])"
proof -
  have "filter (\<lambda>w. targetNodeId w = chainId k) (map (\<lambda>k. mkWire (chainId k) (chainId (Suc k)) 0) [0..<M])
     = (if 0 < k \<and> k \<le> M then [mkWire (chainId (k - 1)) (chainId k) 0] else [])" for M
  proof (induction M)
    case 0
    show ?case by auto
  next
    case (Suc M)
    show ?case
    proof (cases "k = Suc M")
      case True
      with Suc show ?thesis by (simp add: mkWire_def)
    next
      case False
      with Suc show ?thesis by (auto simp: mkWire_def)
    qed
  qed
  from this[of "N - 1"] show ?thesis by (auto simp: chainWires_def)
qed

lemma chain_inputs:
  assumes "k < N"
  shows "getNodeInputs (chainId k) (chainWires N) (chainState N vals)
           = [if 0 < k then Some (vals (k - 1)) else None, None]"
proof (cases "0 < k")
  case False
  with assms show ?thesis
    by (simp add: getNodeInputs_char chain_filter pinWrites_def lastOpt_def)
next
  case True
  with assms have "k - 1 < N" by simp
  from chain_find[OF this, of vals] True assms show ?thesis
    by (simp add: getNodeInputs_char chain_filter pinWrites_def lastOpt_def mkWire_def mkNode_def)
qed

lemma chain_pass:
  "fst (pass (chainWires N) (chainState N vals))
     = chainState N (\<lambda>k. \<not> (0 < k \<and> vals (k - 1)))"
proof -
  have "fst (stepNode (chainWires N) (chainState N vals) (mkNode (chainId k) NOT (chainId k) (vals k)))
      = mkNode (chainId k) NOT (chainId k) (\<not> (0 < k \<and> vals (k - 1)))" if "k < N" for k
  proof -
    have "getNodeInputs (chainId k) (chainWires N) (chainState N vals)
           = [if 0 < k then Some (vals (k - 1)) else None, None]"
      using that by (rule chain_inputs)
    then show ?thesis
      by (simp add: stepNode_fst mkNode_def evaluateGate_def slot_def)
  qed
  then show ?thesis
    by (simp add: pass_fst chainState_def)
qed

lemma chainState_eq: "chainState N v = chainState N v' \<longleftrightarrow> (\<forall>k<N. v k = v' k)"
  by (auto simp: chainState_def mkNode_def)

lemma chain_snapshot:
  "snapshot p (chainWires N) (chainNodes N) = chainState N (\<lambda>k. if k < p then even k else odd p)"
proof (induction p)
  case 0
  show ?case by (simp add: chainNodes_def)
next
  case (Suc p)
  have "snapshot (Suc p) (chainWires N) (chainNodes N)
      = chainState N (\<lambda>k. \<not> (0 < k \<and> (if k - 1 < p then even (k - 1) else odd p)))"
    by (simp add: snapshot_Suc Suc chain_pass)
  also have "\<dots> = chainState N (\<lambda>k. if k < Suc p then even k else odd (Suc p))"
    unfolding chainState_eq
  proof (intro allI impI)
    fix k assume "k < N"
    show "(\<not> (0 < k \<and> (if k - 1 < p then even (k - 1) else odd p)))
            = (if k < Suc p then even k else odd (Suc p))"
      by (cases k) auto
  qed
  finally show ?case .
qed

lemma chain_changes:
  assumes "Suc p < N"
  shows "snd (pass (chainWires N) (snapshot p (chainWires N) (chainNodes N)))"
proof -
  have "snapshot (Suc p) (chainWires N) (chainNodes N) \<noteq> snapshot p (chainWires N) (chainNodes N)"
    unfolding chain_snapshot chainState_eq
    using assms by (auto intro!: exI[where x = "Suc p"])
  then show ?thesis using quiet_iff by blast
qed

lemma chain_result:
  "simulateCircuit (chainNodes 51) (chainWires 51) = snapshot 50 (chainWires 51) (chainNodes 51)"
proof -
  have "\<forall>j<MAX_ITERATIONS. snd (pass (chainWires 51) (snapshot j (chainWires 51) (chainNodes 51)))"
    by (simp add: MAX_ITERATIONS_def chain_changes)
  then have "passesRun (chainNodes 51) (chainWires 51) = MAX_ITERATIONS" by (rule passesRun_cap)
  then show ?thesis by (simp add: simulateCircuit_snapshot MAX_ITERATIONS_def)
qed

text \<open>
  Claim C1 as stated fails: the bound of 50 passes cuts a deep acyclic circuit short. A chain of 51 NOT gates, all
  values false at the start, settles one gate per pass; after 50 passes the last gate
  still holds the wrong value, and a second call changes it.
\<close>

theorem acyclic_idempotence_counterexample:
  "\<not> (acyclic (wireGraph (chainWires 51)) \<longrightarrow>
        simulateCircuit (simulateCircuit (chainNodes 51) (chainWires 51)) (chainWires 51)
          = simulateCircuit (chainNodes 51) (chainWires 51))"
proof -
  let ?R = "simulateCircuit (chainNodes 51) (chainWires 51)"
  let ?m = "passesRun ?R (chainWires 51)"
  have m: "1 \<le> ?m" using passesRun_bounds[of ?R "chainWires 51"] by simp
  have "simulateCircuit ?R (chainWires 51) = snapshot ?m (chainWires 51) ?R"
    by (rule simulateCircuit_snapshot)
  also have "\<dots> = snapshot ?m (chainWires 51) (snapshot 50 (chainWires 51) (chainNodes 51))"
    by (rule arg_cong[where f = "snapshot ?m (chainWires 51)", OF chain_result])
  also have "\<dots> = snapshot (?m + 50) (chainWires 51) (chainNodes 51)"
    by (rule snapshot_add[symmetric])
  finally have "simulateCircuit ?R (chainWires 51) = snapshot (?m + 50) (chainWires 51) (chainNodes 51)" .
  moreover have "snapshot (?m + 50) (chainWires 51) (chainNodes 51)
                   \<noteq> snapshot 50 (chainWires 51) (chainNodes 51)"
    unfolding chain_snapshot chainState_eq using m by (auto intro!: exI[where x = 50])
  ultimately have "simulateCircuit ?R (chainWires 51) \<noteq> ?R" by (simp add: chain_result)
  with chain_acyclic[of 51] show ?thesis by blast
qed

theorem acyclic_fixed_point_witness:
  "acyclic (wireGraph inverterWires) \<and> length inverterNodes \<le> 50
   \<and> fst (pass inverterWires (snapshot 3 inverterWires inverterNodes))
       = snapshot 3 inverterWires inverterNodes
   \<and> simulateCircuit inverterNodes inverterWires = snapshot 3 inverterWires inverterNodes
   \<and> passesRun inverterNodes inverterWires \<le> 4
   \<and> simulateCircuit (simulateCircuit inverterNodes inverterWires) inverterWires
       = simulateCircuit inverterNodes inverterWires"
proof -
  have a: "acyclic (wireGraph inverterWires)"
    by (rule acyclic_by_level[where f = "\<lambda>s. if s = ''a'' then 0 else if s = ''n'' then 1 else 2"])
       (simp add: inverterWires_def mkWire_def)
  have l: "length inverterNodes \<le> 50" by (simp add: inverterNodes_def)
  have n: "length inverterNodes = 3" by (simp add: inverterNodes_def)
  note t = acyclic_fixed_point[OF a, of inverterNodes, unfolded n]
  note u = t[THEN conjunct2, THEN mp, OF l[unfolded n]]
  have "(3::nat) + 1 = 4" by simp
  with t[THEN conjunct1] u a l show ?thesis by metis
qed

section \<open>The truth table\<close>

lemma toInt32_id: "- (2 ^ 31) \<le> x \<Longrightarrow> x < 2 ^ 31 \<Longrightarrow> toInt32 x = x"
  by (simp add: toInt32_def)

lemma shiftCount_small: "k < 32 \<Longrightarrow> shiftCount (int k) = k"
  by (simp add: shiftCount_def)

lemma toInt32_nat:
  assumes "x < 2 ^ 31"
  shows "toInt32 (int x) = int x"
proof (rule toInt32_id)
  show "- (2 ^ 31) \<le> int x" by (rule order_trans[of _ 0]) simp_all
  show "int x < 2 ^ 31" using assms by simp
qed

lemma jsShl_one_small:
  assumes "n \<le> 30"
  shows "jsShl 1 (int n) = 2 ^ n"
proof -
  have "(2::nat) ^ n < 2 ^ 31" using assms by (intro power_strict_increasing) simp_all
  then have "toInt32 (int (2 ^ n)) = int (2 ^ n)" by (rule toInt32_nat)
  then have "toInt32 (2 ^ n) = 2 ^ n" by simp
  moreover have "toInt32 1 = 1" by (simp add: toInt32_def)
  moreover have "shiftCount (int n) = n" using assms by (simp add: shiftCount_small)
  ultimately show ?thesis by (simp add: jsShl_def)
qed

lemma jsShl_one_31: "jsShl 1 31 = - (2 ^ 31)"
  by (simp add: jsShl_def toInt32_def shiftCount_def)

lemma jsShl_one_32: "jsShl 1 32 = 1"
  by (simp add: jsShl_def toInt32_def shiftCount_def)

lemma inputBit_bit:
  assumes n: "n \<le> 30" and j: "j < n" and i: "i < 2 ^ n"
  shows "inputBit (int n) (int i) (int j) = bit i (n - 1 - j)"
proof -
  let ?k = "n - 1 - j"
  have k: "int n - 1 - int j = int ?k" using j by simp
  have "(2::nat) ^ n < 2 ^ 31" using n by (intro power_strict_increasing) simp_all
  with i have i31: "i < 2 ^ 31" by simp
  have t: "toInt32 (int i) = int i" using i31 by (rule toInt32_nat)
  have "?k < 32" using n j by arith
  then have s: "shiftCount (int ?k) = ?k" by (rule shiftCount_small)
  have d: "int i div 2 ^ ?k = int (i div 2 ^ ?k)" by (simp add: zdiv_int)
  have "i div 2 ^ ?k \<le> i" by (rule div_le_dividend)
  then have "i div 2 ^ ?k < 2 ^ 31" using i31 by (rule le_less_trans)
  then have t2: "toInt32 (int (i div 2 ^ ?k)) = int (i div 2 ^ ?k)" by (rule toInt32_nat)
  have "inputBit (int n) (int i) (int j) \<longleftrightarrow> int (i div 2 ^ ?k) mod 2 = 1"
    unfolding inputBit_def jsAnd1_def jsSar_def k t s d t2 ..
  also have "\<dots> \<longleftrightarrow> odd (i div 2 ^ ?k)"
    by (metis even_of_nat odd_iff_mod_2_eq_one)
  also have "\<dots> \<longleftrightarrow> bit i ?k" by (simp add: bit_iff_odd)
  finally show ?thesis .
qed

lemma tableLoop_upto:
  "tableLoop ins outs nodes wires numRows i table
     = table @ map (tableRow ins outs nodes wires) [i..numRows - 1]"
proof (induction ins outs nodes wires numRows i table rule: tableLoop.induct)
  case (1 ins outs nodes wires numRows i table)
  show ?case
  proof (cases "i < numRows")
    case True
    then have "[i..numRows - 1] = i # [i + 1..numRows - 1]" by (simp add: upto_rec1)
    with True "1.IH" show ?thesis by (simp add: tableLoop.simps[of _ _ _ _ numRows i])
  next
    case False
    then show ?thesis by (simp add: tableLoop.simps[of _ _ _ _ numRows i])
  qed
qed

lemma tableLoop_length:
  "length (tableLoop ins outs nodes wires numRows 0 []) = nat numRows"
  by (simp add: tableLoop_upto)

lemma tableLoop_nth:
  assumes "k < nat numRows"
  shows "tableLoop ins outs nodes wires numRows 0 [] ! k = tableRow ins outs nodes wires (int k)"
  using assms by (simp add: tableLoop_upto)

lemma mset_insortBy: "mset (insortBy cmp x xs) = add_mset x (mset xs)"
  by (induction xs) simp_all

lemma mset_sortBy: "mset (sortBy cmp xs) = mset xs"
  by (induction xs) (simp_all add: sortBy_def mset_insortBy)

lemma length_sortBy: "length (sortBy cmp xs) = length xs"
  using mset_sortBy[of cmp xs] by (metis size_mset)




lemma fold_setKey_miss:
  "k \<notin> key ` set xs \<Longrightarrow> fold (\<lambda>x m. setKey m (key x) (v x)) xs m0 k = m0 k"
  by (induction xs arbitrary: m0) (simp_all add: setKey_def)

lemma fold_setKey_proto:
  "fold (\<lambda>x m. setKey m (key x) (v x)) xs m0 ''__proto__'' = m0 ''__proto__''"
  by (induction xs arbitrary: m0) (simp_all add: setKey_def)

lemma fold_setKey_hit:
  "distinct (map key xs) \<Longrightarrow> j < length xs \<Longrightarrow> key (xs ! j) \<noteq> ''__proto__'' \<Longrightarrow>
     fold (\<lambda>x m. setKey m (key x) (v x)) xs m0 (key (xs ! j)) = Some (v (xs ! j))"
proof (induction xs arbitrary: m0 j)
  case Nil
  then show ?case by simp
next
  case (Cons x xs)
  let ?F = "\<lambda>x m. setKey m (key x) (v x)"
  show ?case
  proof (cases j)
    case 0
    from Cons.prems(1) have miss: "key x \<notin> key ` set xs" by simp
    from Cons.prems(3) 0 have np: "key x \<noteq> ''__proto__''" by simp
    have "fold ?F (x # xs) m0 (key x) = fold ?F xs (setKey m0 (key x) (v x)) (key x)"
      by simp
    also have "\<dots> = setKey m0 (key x) (v x) (key x)"
      using miss by (rule fold_setKey_miss)
    also have "\<dots> = Some (v x)" using np by (simp add: setKey_def)
    finally show ?thesis unfolding 0 by (simp only: nth_Cons_0)
  next
    case (Suc j')
    with Cons.prems have "distinct (map key xs)" "j' < length xs" "key (xs ! j') \<noteq> ''__proto__''"
      by simp_all
    from Cons.IH[OF this, of "setKey m0 (key x) (v x)"] Suc show ?thesis by simp
  qed
qed




lemma rowOutputs_nth:
  assumes "distinct (map node_label outs)" and "j < length outs"
    and "node_label (outs ! j) \<noteq> ''__proto__''"
  shows "rowOutputs outs temp (node_label (outs ! j))
           = Some (case find (\<lambda>n. node_id n = node_id (outs ! j)) temp of
                     Some c \<Rightarrow> node_value c | None \<Rightarrow> False)"
  unfolding rowOutputs_def by (rule fold_setKey_hit[OF assms])

lemma rowOutputs_proto: "rowOutputs outs temp ''__proto__'' = None"
  by (simp add: rowOutputs_def fold_setKey_proto)

lemma length_sortedByLabel:
  "length (sortedByLabel lc t nodes) = length (filter (\<lambda>n. node_type n = t) nodes)"
  by (simp add: sortedByLabel_def length_sortBy)

lemma mset_sortedByLabel:
  "mset (sortedByLabel lc t nodes) = mset (filter (\<lambda>n. node_type n = t) nodes)"
  by (simp add: sortedByLabel_def mset_sortBy)


lemma sortedByLabel_Nil:
  "sortedByLabel lc t nodes = [] \<longleftrightarrow> filter (\<lambda>n. node_type n = t) nodes = []"
  using length_sortedByLabel[of lc t nodes] by (metis length_0_conv)

lemma generateTruthTable_rows:
  "generateTruthTable lc nodes wires =
     (let ins = sortedByLabel lc INPUT nodes; outs = sortedByLabel lc OUTPUT nodes
      in if ins = [] then []
         else map (tableRow ins outs nodes wires) [0..jsShl 1 (int (length ins)) - 1])"
  by (simp add: generateTruthTable_def Let_def tableLoop_upto)

lemma generateTruthTable_length:
  "length (generateTruthTable lc nodes wires) =
     (let n = length (filter (\<lambda>n. node_type n = INPUT) nodes)
      in if n = 0 then 0 else nat (jsShl 1 (int n)))"
  by (simp add: generateTruthTable_def Let_def tableLoop_length length_sortedByLabel
      sortedByLabel_Nil)

lemma generateTruthTable_nth:
  assumes "sortedByLabel lc INPUT nodes \<noteq> []"
    and "k < nat (jsShl 1 (int (length (sortedByLabel lc INPUT nodes))))"
  shows "generateTruthTable lc nodes wires ! k
           = tableRow (sortedByLabel lc INPUT nodes) (sortedByLabel lc OUTPUT nodes) nodes wires (int k)"
  using assms by (simp add: generateTruthTable_def Let_def tableLoop_nth)

lemma truth_table_small:
  assumes n: "n = length (filter (\<lambda>n. node_type n = INPUT) nodes)" and le: "n \<le> 30"
  shows "length (generateTruthTable lc nodes wires) = (if n = 0 then 0 else 2 ^ n)"
proof -
  have "nat (jsShl 1 (int n)) = 2 ^ n" using le by (simp add: jsShl_one_small nat_power_eq)
  then show ?thesis using n by (simp add: generateTruthTable_length Let_def)
qed




lemma sorted_and_inputs:
  "sortedByLabel compareCodes INPUT andNodes = [mkNode ''a'' INPUT ''A'' False, mkNode ''b'' INPUT ''B'' False]"
  by (simp add: sortedByLabel_def sortBy_def andNodes_def mkNode_def)



text \<open>
  Claim C5: the table has \<open>2^n\<close> rows for \<open>n \<ge> 1\<close> INPUT nodes and none for \<open>n = 0\<close>. Up to
  30 inputs this is lemma \<open>truth_table_small\<close>. The source computes the row count as
  \<^verbatim>\<open>1 << inputs.length\<close> and comments it as \<open>2^n\<close>; \<^verbatim>\<open>1 << 32\<close> is 1 and \<^verbatim>\<open>1 << 31\<close> is
  negative, so the table has one row for 32 inputs and none for 31 inputs.
\<close>

theorem truth_table_rows_overflow:
  "length (filter (\<lambda>n. node_type n = INPUT) (inputBank 32)) = 32
   \<and> length (generateTruthTable compareCodes (inputBank 32) []) = 1
   \<and> length (filter (\<lambda>n. node_type n = INPUT) (inputBank 31)) = 31
   \<and> generateTruthTable compareCodes (inputBank 31) [] = []"
proof -
  have f: "filter (\<lambda>n. node_type n = INPUT) (inputBank k) = inputBank k" for k
    by (simp add: inputBank_def mkNode_def)
  have l: "length (inputBank k) = k" for k by (simp add: inputBank_def)
  have a: "length (generateTruthTable compareCodes (inputBank 32) []) = 1"
    using jsShl_one_32 by (simp add: generateTruthTable_length f l)
  have "length (generateTruthTable compareCodes (inputBank 31) []) = 0"
    using jsShl_one_31 by (simp add: generateTruthTable_length f l)
  then have b: "generateTruthTable compareCodes (inputBank 31) [] = []" by simp
  from a b show ?thesis by (simp add: f l)
qed

lemma latch_sorted:
  "sortedByLabel compareCodes INPUT (latchNodes v) = [mkNode ''a'' INPUT ''A'' False]"
  "sortedByLabel compareCodes OUTPUT (latchNodes v) = [mkNode ''y'' OUTPUT ''Y'' False]"
  by (simp_all add: sortedByLabel_def sortBy_def latchNodes_def mkNode_def)

lemma latch_copy:
  "setInputs [mkNode ''a'' INPUT ''A'' False] 0 (latchNodes v) = latchNodes v"
  by (simp add: setInputs_def latchNodes_def mkNode_def inputBit_def jsAnd1_def jsSar_def
      toInt32_def shiftCount_def)

lemma latch_pass1:
  "pass latchWires [mkNode ''a'' INPUT ''A'' False, mkNode ''g'' OR ''OR'' v, mkNode ''y'' OUTPUT ''Y'' w]
     = ([mkNode ''a'' INPUT ''A'' False, mkNode ''g'' OR ''OR'' v, mkNode ''y'' OUTPUT ''Y'' v], v \<noteq> w)"
  by (cases v; cases w) (simp_all add: latchWires_def eval_defs)

lemma latch_settled:
  "simulateCircuit (latchNodes v) latchWires
     = [mkNode ''a'' INPUT ''A'' False, mkNode ''g'' OR ''OR'' v, mkNode ''y'' OUTPUT ''Y'' v]"
proof -
  let ?S = "[mkNode ''a'' INPUT ''A'' False, mkNode ''g'' OR ''OR'' v, mkNode ''y'' OUTPUT ''Y'' v]"
  have s1: "snapshot (Suc 0) latchWires (latchNodes v) = ?S"
    by (simp add: snapshot_Suc latchNodes_def latch_pass1)
  have "snapshot (Suc (Suc 0)) latchWires (latchNodes v) = snapshot (Suc 0) latchWires (latchNodes v)"
    by (simp add: snapshot_Suc[of "Suc 0"] s1 latch_pass1)
  then have "snapshot (passesRun (latchNodes v) latchWires) latchWires (latchNodes v)
               = snapshot (Suc 0) latchWires (latchNodes v)"
    by (rule fixed_snapshot_le) (use passesRun_bounds[of "latchNodes v" latchWires] in simp)
  then show ?thesis by (simp add: simulateCircuit_snapshot s1)
qed

lemma latch_row0:
  "outputs (generateTruthTable compareCodes (latchNodes v) latchWires ! 0) ''Y'' = Some v"
proof -
  have "jsShl 1 (int 1) = 2 ^ 1" by (rule jsShl_one_small) simp
  then have r: "0 < nat (jsShl 1 (int (length (sortedByLabel compareCodes INPUT (latchNodes v)))))"
    by (simp add: latch_sorted)
  have "generateTruthTable compareCodes (latchNodes v) latchWires ! 0
      = tableRow [mkNode ''a'' INPUT ''A'' False] [mkNode ''y'' OUTPUT ''Y'' False]
          (latchNodes v) latchWires 0"
    using generateTruthTable_nth[of compareCodes "latchNodes v" 0 latchWires] r
    by (simp add: latch_sorted)
  then have "outputs (generateTruthTable compareCodes (latchNodes v) latchWires ! 0)
      = rowOutputs [mkNode ''y'' OUTPUT ''Y'' False]
          (simulateCircuit (setInputs [mkNode ''a'' INPUT ''A'' False] 0 (latchNodes v)) latchWires)"
    by (simp add: tableRow_def Let_def)
  also have "\<dots> = rowOutputs [mkNode ''y'' OUTPUT ''Y'' False]
          [mkNode ''a'' INPUT ''A'' False, mkNode ''g'' OR ''OR'' v, mkNode ''y'' OUTPUT ''Y'' v]"
    by (simp only: latch_copy latch_settled)
  finally show ?thesis by (simp add: rowOutputs_def setKey_def mkNode_def)
qed

lemma setInputs_nth:
  assumes "p < length nodes"
  shows "setInputs inputNodes i nodes ! p =
        (if node_type (nodes ! p) = INPUT
         then (nodes ! p)\<lparr>node_value :=
                inputBit (int (length inputNodes)) i
                  (findIndex (\<lambda>inp. node_id inp = node_id (nodes ! p)) inputNodes)\<rparr>
         else nodes ! p)"
  using assms by (simp add: setInputs_def Let_def)

lemma findIndex_nonneg_or: "findIndex P xs = - 1 \<or> 0 \<le> findIndex P xs"
  by (induction xs) (auto simp: Let_def)

lemma findIndex_least:
  "j < length xs \<Longrightarrow> P (xs ! j) \<Longrightarrow> \<forall>j'<j. \<not> P (xs ! j') \<Longrightarrow> findIndex P xs = int j"
proof (induction xs arbitrary: j)
  case Nil
  then show ?case by simp
next
  case (Cons x xs)
  show ?case
  proof (cases j)
    case 0
    with Cons.prems(2) show ?thesis by simp
  next
    case (Suc j')
    with Cons.prems(3) have nx: "\<not> P x" by auto
    from Suc Cons.prems have "j' < length xs" "P (xs ! j')" "\<forall>i<j'. \<not> P (xs ! i)" by auto
    then have "findIndex P xs = int j'" by (rule Cons.IH)
    with nx Suc show ?thesis by (simp add: Let_def)
  qed
qed

lemma setInputs_length: "length (setInputs inputNodes i nodes) = length nodes"
  by (simp add: setInputs_def)

lemma setInputs_other:
  "p < length nodes \<Longrightarrow> node_type (nodes ! p) \<noteq> INPUT \<Longrightarrow>
     setInputs inputNodes i nodes ! p = nodes ! p"
  by (simp add: setInputs_nth)

lemma setInputs_input:
  assumes "p < length nodes" and "node_type (nodes ! p) = INPUT"
    and "j < length inputNodes" and "node_id (inputNodes ! j) = node_id (nodes ! p)"
    and "\<forall>j'<j. node_id (inputNodes ! j') \<noteq> node_id (nodes ! p)"
  shows "setInputs inputNodes i nodes ! p
           = (nodes ! p)\<lparr>node_value := inputBit (int (length inputNodes)) i (int j)\<rparr>"
proof -
  have "findIndex (\<lambda>inp. node_id inp = node_id (nodes ! p)) inputNodes = int j"
    using assms(3,4,5) by (intro findIndex_least) simp_all
  with assms(1,2) show ?thesis by (simp add: setInputs_nth)
qed

lemma input_found:
  assumes "p < length nodes" and "node_type (nodes ! p) = INPUT"
  shows "\<exists>j<length (sortedByLabel lc INPUT nodes).
           node_id (sortedByLabel lc INPUT nodes ! j) = node_id (nodes ! p)"
proof -
  have "nodes ! p \<in> set (filter (\<lambda>n. node_type n = INPUT) nodes)" using assms by simp
  also have "set (filter (\<lambda>n. node_type n = INPUT) nodes) = set (sortedByLabel lc INPUT nodes)"
    using mset_sortedByLabel[of lc INPUT nodes] by (metis set_mset_mset)
  finally obtain j where "j < length (sortedByLabel lc INPUT nodes)"
    "sortedByLabel lc INPUT nodes ! j = nodes ! p"
    by (auto simp: in_set_conv_nth)
  then show ?thesis by auto
qed

lemma table_row:
  assumes "k < length (generateTruthTable lc nodes wires)"
  shows "generateTruthTable lc nodes wires ! k
           = tableRow (sortedByLabel lc INPUT nodes) (sortedByLabel lc OUTPUT nodes) nodes wires (int k)"
proof (rule generateTruthTable_nth)
  let ?n = "length (filter (\<lambda>n. node_type n = INPUT) nodes)"
  from assms have n0: "?n \<noteq> 0" and kk: "k < nat (jsShl 1 (int ?n))"
    by (auto simp: generateTruthTable_length Let_def split: if_splits)
  from n0 show "sortedByLabel lc INPUT nodes \<noteq> []" by (simp add: sortedByLabel_Nil)
  from kk show "k < nat (jsShl 1 (int (length (sortedByLabel lc INPUT nodes))))"
    by (simp add: length_sortedByLabel)
qed

lemma table_row_outputs:
  assumes "k < length (generateTruthTable lc nodes wires)"
  shows "outputs (generateTruthTable lc nodes wires ! k)
           = rowOutputs (sortedByLabel lc OUTPUT nodes)
               (simulateCircuit (setInputs (sortedByLabel lc INPUT nodes) (int k) nodes) wires)"
  by (simp add: table_row[OF assms] tableRow_def Let_def)

lemma table_row_output_value:
  assumes "k < length (generateTruthTable lc nodes wires)"
    and "distinct (map node_label (sortedByLabel lc OUTPUT nodes))"
    and "j < length (sortedByLabel lc OUTPUT nodes)"
    and "node_label (sortedByLabel lc OUTPUT nodes ! j) \<noteq> ''__proto__''"
  shows "outputs (generateTruthTable lc nodes wires ! k)
             (node_label (sortedByLabel lc OUTPUT nodes ! j))
           = Some (case find (\<lambda>n. node_id n = node_id (sortedByLabel lc OUTPUT nodes ! j))
                         (simulateCircuit (setInputs (sortedByLabel lc INPUT nodes) (int k) nodes) wires) of
                     Some c \<Rightarrow> node_value c | None \<Rightarrow> False)"
  unfolding table_row_outputs[OF assms(1)] by (rule rowOutputs_nth[OF assms(2,3,4)])

lemma table_row_bit:
  assumes k: "k < length (generateTruthTable lc nodes wires)"
    and n30: "length (sortedByLabel lc INPUT nodes) \<le> 30"
    and j: "j < length (sortedByLabel lc INPUT nodes)"
  shows "inputBit (int (length (sortedByLabel lc INPUT nodes))) (int k) (int j)
           = bit k (length (sortedByLabel lc INPUT nodes) - 1 - j)"
proof -
  let ?n = "length (sortedByLabel lc INPUT nodes)"
  have nf: "?n = length (filter (\<lambda>n. node_type n = INPUT) nodes)" by (rule length_sortedByLabel)
  from j have "?n \<noteq> 0" by auto
  with truth_table_small[OF nf n30, of lc wires] k have "k < 2 ^ ?n" by simp
  with n30 j show ?thesis by (intro inputBit_bit)
qed

lemma setInputs_input_bit:
  assumes "k < length (generateTruthTable lc nodes wires)"
    and "length (sortedByLabel lc INPUT nodes) \<le> 30"
    and "p < length nodes" and "node_type (nodes ! p) = INPUT"
    and "j < length (sortedByLabel lc INPUT nodes)"
    and "node_id (sortedByLabel lc INPUT nodes ! j) = node_id (nodes ! p)"
    and "\<forall>j'<j. node_id (sortedByLabel lc INPUT nodes ! j') \<noteq> node_id (nodes ! p)"
  shows "node_value (setInputs (sortedByLabel lc INPUT nodes) (int k) nodes ! p)
           = bit k (length (sortedByLabel lc INPUT nodes) - 1 - j)"
  using setInputs_input[OF assms(3,4,5,6,7), of "int k"] table_row_bit[OF assms(1,2,5)]
  by simp

text \<open>
  Claim C10. For every row \<open>k\<close> of the table, the working copy handed to the evaluator
  is the caller's node list with the INPUT values replaced: a node that is not an INPUT
  is the caller's node, value included; an INPUT node gets the bit of the first sorted
  input with its id (one exists), which is bit \<open>n - 1 - j\<close> of \<open>k\<close> up to 30 inputs. The
  row's outputs are read from the evaluator's result on that copy, each output label
  recording the value of the first node with the output's id. For the self-fed OR gate,
  two snapshots that differ only in the value of the gate give different outputs in
  row 0.
\<close>

theorem working_copy_keeps_values:
  "(\<forall>k<length (generateTruthTable lc nodes wires).
      let inputNodes = sortedByLabel lc INPUT nodes;
          outputNodes = sortedByLabel lc OUTPUT nodes;
          tempNodes = setInputs inputNodes (int k) nodes
      in length tempNodes = length nodes
       \<and> (\<forall>p<length nodes. node_type (nodes ! p) \<noteq> INPUT \<longrightarrow> tempNodes ! p = nodes ! p)
       \<and> (\<forall>p<length nodes. node_type (nodes ! p) = INPUT \<longrightarrow>
             (\<exists>j<length inputNodes. node_id (inputNodes ! j) = node_id (nodes ! p)))
       \<and> (\<forall>p<length nodes. \<forall>j<length inputNodes.
             node_type (nodes ! p) = INPUT \<and> node_id (inputNodes ! j) = node_id (nodes ! p)
             \<and> (\<forall>j'<j. node_id (inputNodes ! j') \<noteq> node_id (nodes ! p)) \<longrightarrow>
               tempNodes ! p
                 = (nodes ! p)\<lparr>node_value := inputBit (int (length inputNodes)) (int k) (int j)\<rparr>
               \<and> (length inputNodes \<le> 30 \<longrightarrow>
                    node_value (tempNodes ! p) = bit k (length inputNodes - 1 - j)))
       \<and> outputs (generateTruthTable lc nodes wires ! k)
           = rowOutputs outputNodes (simulateCircuit tempNodes wires)
       \<and> (distinct (map node_label outputNodes) \<longrightarrow>
            (\<forall>j<length outputNodes. node_label (outputNodes ! j) \<noteq> ''__proto__'' \<longrightarrow>
               outputs (generateTruthTable lc nodes wires ! k) (node_label (outputNodes ! j))
                 = Some (case find (\<lambda>n. node_id n = node_id (outputNodes ! j))
                               (simulateCircuit tempNodes wires) of
                           Some c \<Rightarrow> node_value c | None \<Rightarrow> False))))
   \<and> map frame (latchNodes True) = map frame (latchNodes False)
   \<and> outputs (generateTruthTable compareCodes (latchNodes True) latchWires ! 0) ''Y'' = Some True
   \<and> outputs (generateTruthTable compareCodes (latchNodes False) latchWires ! 0) ''Y'' = Some False"
proof (intro conjI)
  show "map frame (latchNodes True) = map frame (latchNodes False)"
    by (simp add: latchNodes_def frame_def mkNode_def)
  show "outputs (generateTruthTable compareCodes (latchNodes True) latchWires ! 0) ''Y'' = Some True"
    by (rule latch_row0)
  show "outputs (generateTruthTable compareCodes (latchNodes False) latchWires ! 0) ''Y'' = Some False"
    by (rule latch_row0)
  show "\<forall>k<length (generateTruthTable lc nodes wires).
      let inputNodes = sortedByLabel lc INPUT nodes;
          outputNodes = sortedByLabel lc OUTPUT nodes;
          tempNodes = setInputs inputNodes (int k) nodes
      in length tempNodes = length nodes
       \<and> (\<forall>p<length nodes. node_type (nodes ! p) \<noteq> INPUT \<longrightarrow> tempNodes ! p = nodes ! p)
       \<and> (\<forall>p<length nodes. node_type (nodes ! p) = INPUT \<longrightarrow>
             (\<exists>j<length inputNodes. node_id (inputNodes ! j) = node_id (nodes ! p)))
       \<and> (\<forall>p<length nodes. \<forall>j<length inputNodes.
             node_type (nodes ! p) = INPUT \<and> node_id (inputNodes ! j) = node_id (nodes ! p)
             \<and> (\<forall>j'<j. node_id (inputNodes ! j') \<noteq> node_id (nodes ! p)) \<longrightarrow>
               tempNodes ! p
                 = (nodes ! p)\<lparr>node_value := inputBit (int (length inputNodes)) (int k) (int j)\<rparr>
               \<and> (length inputNodes \<le> 30 \<longrightarrow>
                    node_value (tempNodes ! p) = bit k (length inputNodes - 1 - j)))
       \<and> outputs (generateTruthTable lc nodes wires ! k)
           = rowOutputs outputNodes (simulateCircuit tempNodes wires)
       \<and> (distinct (map node_label outputNodes) \<longrightarrow>
            (\<forall>j<length outputNodes. node_label (outputNodes ! j) \<noteq> ''__proto__'' \<longrightarrow>
               outputs (generateTruthTable lc nodes wires ! k) (node_label (outputNodes ! j))
                 = Some (case find (\<lambda>n. node_id n = node_id (outputNodes ! j))
                               (simulateCircuit tempNodes wires) of
                           Some c \<Rightarrow> node_value c | None \<Rightarrow> False)))"
    unfolding Let_def
  proof (intro allI impI conjI)
    fix k assume k: "k < length (generateTruthTable lc nodes wires)"
    let ?ins = "sortedByLabel lc INPUT nodes"
    let ?outs = "sortedByLabel lc OUTPUT nodes"
    let ?temp = "setInputs ?ins (int k) nodes"
    show "length ?temp = length nodes" by (rule setInputs_length)
    show "outputs (generateTruthTable lc nodes wires ! k) = rowOutputs ?outs (simulateCircuit ?temp wires)"
      using k by (rule table_row_outputs)
    { fix p assume "p < length nodes" "node_type (nodes ! p) \<noteq> INPUT"
      then show "?temp ! p = nodes ! p" by (rule setInputs_other) }
    { fix p assume "p < length nodes" "node_type (nodes ! p) = INPUT"
      then show "\<exists>j<length ?ins. node_id (?ins ! j) = node_id (nodes ! p)" by (rule input_found) }
    { fix p j
      assume p: "p < length nodes" and j: "j < length ?ins"
        and h: "node_type (nodes ! p) = INPUT \<and> node_id (?ins ! j) = node_id (nodes ! p)
                 \<and> (\<forall>j'<j. node_id (?ins ! j') \<noteq> node_id (nodes ! p))"
      from h have t: "node_type (nodes ! p) = INPUT" and i: "node_id (?ins ! j) = node_id (nodes ! p)"
        and l: "\<forall>j'<j. node_id (?ins ! j') \<noteq> node_id (nodes ! p)" by simp_all
      show "?temp ! p = (nodes ! p)\<lparr>node_value := inputBit (int (length ?ins)) (int k) (int j)\<rparr>"
        using p t j i l by (rule setInputs_input)
      assume n30: "length ?ins \<le> 30"
      show "node_value (?temp ! p) = bit k (length ?ins - 1 - j)"
        using k n30 p t j i l by (rule setInputs_input_bit) }
    { fix j
      assume "distinct (map node_label ?outs)" "j < length ?outs"
        "node_label (?outs ! j) \<noteq> ''__proto__''"
      with k show "outputs (generateTruthTable lc nodes wires ! k) (node_label (?outs ! j))
                 = Some (case find (\<lambda>n. node_id n = node_id (?outs ! j)) (simulateCircuit ?temp wires) of
                           Some c \<Rightarrow> node_value c | None \<Rightarrow> False)"
        by (rule table_row_output_value) }
  qed
qed

theorem working_copy_keeps_values_witness:
  "length (generateTruthTable compareCodes andNodes andWires) = 4
   \<and> setInputs (sortedByLabel compareCodes INPUT andNodes) 1 andNodes ! 0
       = mkNode ''b'' INPUT ''B'' True
   \<and> node_value (setInputs (sortedByLabel compareCodes INPUT andNodes) 1 andNodes ! 0) = bit (1::nat) 0
   \<and> setInputs (sortedByLabel compareCodes INPUT andNodes) 1 andNodes ! 2
       = mkNode ''g'' AND ''AND'' False
   \<and> length (generateTruthTable compareCodes (latchNodes True) latchWires) = 2
   \<and> outputs (generateTruthTable compareCodes (latchNodes True) latchWires ! 0) ''Y'' = Some True"
proof -
  have len: "length (generateTruthTable compareCodes andNodes andWires) = 4"
    using truth_table_small[of 2 andNodes compareCodes andWires]
    by (simp add: andNodes_def mkNode_def)
  then have k: "1 < length (generateTruthTable compareCodes andNodes andWires)" by simp
  note t = working_copy_keeps_values[of compareCodes andNodes andWires, THEN conjunct1,
      rule_format, OF k, unfolded Let_def]
  note others = t[THEN conjunct2, THEN conjunct1, rule_format, of 2]
  note input = t[THEN conjunct2, THEN conjunct2, THEN conjunct2, THEN conjunct1,
      rule_format, of 0 1]
  have p2: "2 < length andNodes" and p0: "0 < length andNodes" by (simp_all add: andNodes_def)
  have g: "node_type (andNodes ! 2) \<noteq> INPUT" by (simp add: andNodes_def mkNode_def)
  have j: "1 < length (sortedByLabel compareCodes INPUT andNodes)"
    by (simp add: sorted_and_inputs)
  have h: "node_type (andNodes ! 0) = INPUT
      \<and> node_id (sortedByLabel compareCodes INPUT andNodes ! 1) = node_id (andNodes ! 0)
      \<and> (\<forall>j'<1. node_id (sortedByLabel compareCodes INPUT andNodes ! j') \<noteq> node_id (andNodes ! 0))"
    unfolding sorted_and_inputs by (simp add: andNodes_def mkNode_def)
  have n: "length (sortedByLabel compareCodes INPUT andNodes) \<le> 30"
    by (simp add: sorted_and_inputs)
  have a: "setInputs (sortedByLabel compareCodes INPUT andNodes) 1 andNodes ! 2
             = mkNode ''g'' AND ''AND'' False"
    using others[OF p2 g] by (simp add: andNodes_def)
  have b: "setInputs (sortedByLabel compareCodes INPUT andNodes) 1 andNodes ! 0
             = mkNode ''b'' INPUT ''B'' True"
    using input[OF p0 j h, THEN conjunct1] unfolding sorted_and_inputs
    by (simp add: andNodes_def mkNode_def inputBit_def jsAnd1_def jsSar_def
        toInt32_def shiftCount_def)
  have c: "node_value (setInputs (sortedByLabel compareCodes INPUT andNodes) 1 andNodes ! 0)
             = bit (1::nat) 0"
    using input[OF p0 j h, THEN conjunct2, rule_format, OF n] unfolding sorted_and_inputs
    by simp
  have llen: "length (generateTruthTable compareCodes (latchNodes True) latchWires) = 2"
    using truth_table_small[of 1 "latchNodes True" compareCodes latchWires]
    by (simp add: latchNodes_def mkNode_def)
  then have k0: "0 < length (generateTruthTable compareCodes (latchNodes True) latchWires)" by simp
  note r = working_copy_keeps_values[of compareCodes "latchNodes True" latchWires, THEN conjunct1,
      rule_format, OF k0, unfolded Let_def]
  note out = r[THEN conjunct2, THEN conjunct2, THEN conjunct2, THEN conjunct2, THEN conjunct2,
      rule_format, of 0]
  have d: "distinct (map node_label (sortedByLabel compareCodes OUTPUT (latchNodes True)))"
    and o: "0 < length (sortedByLabel compareCodes OUTPUT (latchNodes True))"
    and l: "node_label (sortedByLabel compareCodes OUTPUT (latchNodes True) ! 0) \<noteq> ''__proto__''"
    by (simp_all add: latch_sorted mkNode_def)
  have e: "outputs (generateTruthTable compareCodes (latchNodes True) latchWires ! 0) ''Y'' = Some True"
    using out[OF d o l] unfolding latch_sorted of_nat_0 latch_copy latch_settled
    by (simp add: mkNode_def)
  from len b c a llen e show ?thesis by simp
qed

section \<open>Expression synthesis\<close>

lemma buildExpr_total: "All (buildExpr_dom :: 'c CircuitNode list \<times> Wire list \<times> string \<times> string set \<Rightarrow> bool)"
proof (relation "measure (\<lambda>(nodes, wires, nodeId, visited). card (node_id ` set nodes - visited))")
  show "wf (measure (\<lambda>(nodes :: 'c CircuitNode list, wires :: Wire list, nodeId :: string, visited).
              card (node_id ` set nodes - visited)))"
    by simp
next
  fix nodes :: "'c CircuitNode list" and wires :: "Wire list" and nodeId visited node inputWires w
  assume nv: "nodeId \<notin> visited" and f: "find (\<lambda>n. node_id n = nodeId) nodes = Some node"
  from f have "nodeId \<in> node_id ` set nodes"
    by (auto simp: find_Some_iff)
  with nv have "node_id ` set nodes - insert nodeId visited \<subset> node_id ` set nodes - visited"
    by auto
  then have "card (node_id ` set nodes - insert nodeId visited) < card (node_id ` set nodes - visited)"
    by (intro psubset_card_mono) simp_all
  then show "((nodes, wires, sourceNodeId w, insert nodeId visited), (nodes, wires, nodeId, visited))
          \<in> measure (\<lambda>(nodes, wires, nodeId, visited). card (node_id ` set nodes - visited))"
    by simp
qed

termination buildExpr
  by (rule buildExpr_total)

declare buildExpr.simps [simp del]




lemma buildExpr_gate:
  "nodeId \<notin> visited \<Longrightarrow> find (\<lambda>n. node_id n = nodeId) nodes = Some node \<Longrightarrow>
     node_type node \<noteq> INPUT \<Longrightarrow>
     buildExpr nodes wires nodeId visited =
       renderGate node
         (map (\<lambda>w. buildExpr nodes wires (sourceNodeId w) (insert nodeId visited))
            (sort_key targetPinIndex (filter (\<lambda>w. targetNodeId w = nodeId) wires)))"
  by (simp add: buildExpr.simps[of nodes wires nodeId visited] Let_def)



lemmas expr_defs = buildExpr.simps renderGate_def elemOr_def orElse_def generateExpression_def
  mkNode_def mkWire_def Let_def



lemma pinOne_expr:
  "buildExpr (pinOneNodes ''A'') pinOneWires ''g'' {''y''} = ''(A '' @ DOT @ '' 0)''"
  by (simp add: pinOneNodes_def pinOneWires_def expr_defs)

lemma pinOne_blank_expr:
  "buildExpr (pinOneNodes '''') pinOneWires ''g'' {''y''} = ''(0 '' @ DOT @ '' 0)''"
  by (simp add: pinOneNodes_def pinOneWires_def expr_defs)

lemma blank_expr: "generateExpression blankNodes blankWires = ''Y = ?; Z = Z''"
  by (simp add: blankNodes_def blankWires_def expr_defs)

lemma and_expr: "generateExpression andNodes andWires = ''Y = (A '' @ DOT @ '' B)''"
  by (simp add: andNodes_def andWires_def expr_defs)




lemma generateExpression_eq:
  "generateExpression nodes wires =
     (if filter (\<lambda>n. node_type n = OUTPUT) nodes = [] then ''No Output''
      else joinWith ''; ''
             (map (\<lambda>out. node_label out @ '' = '' @ buildExpr nodes wires (node_id out) {})
                (filter (\<lambda>n. node_type n = OUTPUT) nodes)))"
  by (simp add: generateExpression_def Let_def)

lemma render_by_position:
  assumes "nodeId \<notin> visited"
    and "find (\<lambda>n. node_id n = nodeId) nodes = Some node"
    and "sort_key targetPinIndex (filter (\<lambda>w. targetNodeId w = nodeId) wires) = w1 # ws"
    and "a = orElse (buildExpr nodes wires (sourceNodeId w1) (insert nodeId visited)) ''0''"
    and "b = (case ws of [] \<Rightarrow> ''0''
              | w2 # _ \<Rightarrow> orElse (buildExpr nodes wires (sourceNodeId w2) (insert nodeId visited)) ''0'')"
  shows "(node_type node = AND \<longrightarrow>
            buildExpr nodes wires nodeId visited = ''('' @ a @ '' '' @ DOT @ '' '' @ b @ '')'')
       \<and> (node_type node = OR \<longrightarrow>
            buildExpr nodes wires nodeId visited = ''('' @ a @ '' + '' @ b @ '')'')
       \<and> (node_type node = NAND \<longrightarrow>
            buildExpr nodes wires nodeId visited = NEG @ ''('' @ a @ '' '' @ DOT @ '' '' @ b @ '')'')
       \<and> (node_type node = NOR \<longrightarrow>
            buildExpr nodes wires nodeId visited = NEG @ ''('' @ a @ '' + '' @ b @ '')'')
       \<and> (node_type node = XOR \<longrightarrow>
            buildExpr nodes wires nodeId visited = ''('' @ a @ '' '' @ OPLUS @ '' '' @ b @ '')'')
       \<and> (node_type node = NOT \<longrightarrow> buildExpr nodes wires nodeId visited = NEG @ a)
       \<and> (node_type node = OUTPUT \<longrightarrow>
            buildExpr nodes wires nodeId visited
              = orElse (buildExpr nodes wires (sourceNodeId w1) (insert nodeId visited)) ''?'')"
proof -
  let ?E = "\<lambda>w. buildExpr nodes wires (sourceNodeId w) (insert nodeId visited)"
  have g: "buildExpr nodes wires nodeId visited = renderGate node (?E w1 # map ?E ws)"
    if "node_type node \<noteq> INPUT"
    using buildExpr_gate[OF assms(1,2) that, of wires] by (simp add: assms(3))
  have a: "elemOr (?E w1 # map ?E ws) 0 ''0'' = a" by (simp add: elemOr_def assms(4))
  have b: "elemOr (?E w1 # map ?E ws) 1 ''0'' = b"
    by (cases ws) (simp_all add: elemOr_def assms(5))
  have o: "elemOr (?E w1 # map ?E ws) 0 ''?'' = orElse (?E w1) ''?''" by (simp add: elemOr_def)
  have r: "renderGate node (?E w1 # map ?E ws) =
     (case node_type node of
                AND \<Rightarrow> ''('' @ a @ '' '' @ DOT @ '' '' @ b @ '')''
              | OR \<Rightarrow> ''('' @ a @ '' + '' @ b @ '')''
              | NOT \<Rightarrow> NEG @ a
              | NAND \<Rightarrow> NEG @ ''('' @ a @ '' '' @ DOT @ '' '' @ b @ '')''
              | NOR \<Rightarrow> NEG @ ''('' @ a @ '' + '' @ b @ '')''
              | XOR \<Rightarrow> ''('' @ a @ '' '' @ OPLUS @ '' '' @ b @ '')''
              | OUTPUT \<Rightarrow> orElse (?E w1) ''?''
              | INPUT \<Rightarrow> ''?'')"
    unfolding renderGate_def Let_def a b o by simp
  show ?thesis by (intro conjI impI) (simp_all add: g r)
qed

lemma buildExpr_undriven:
  assumes "m \<notin> visited" and "find (\<lambda>x. node_id x = m) nodes = Some n"
    and "node_type n \<noteq> INPUT" and "filter (\<lambda>w. targetNodeId w = m) wires = []"
  shows "buildExpr nodes wires m visited = orElse (node_label n) ''?''"
  using buildExpr_gate[OF assms(1,2,3), of wires] by (simp add: assms(4) renderGate_def)

text \<open>
  Claim C7, as amended. A gate that is found, not on the current path and driven by at
  least one wire renders with the notation of its kind, where \<open>a\<close> is the expansion of
  the source of the first wire in pin order and \<open>b\<close> that of the second, each replaced by
  \<open>0\<close> when it is the empty string, and \<open>b\<close> being \<open>0\<close> when there is no second wire. An
  OUTPUT renders as the expansion of its first source, or as \<open>?\<close> when that expansion is
  the empty string. A gate or OUTPUT that no wire drives renders as its label, or as
  \<open>?\<close> when the label is empty. For every circuit, the result is \<open>No Output\<close> when the
  node list has no OUTPUT node, and otherwise lists every OUTPUT node in the order of
  the node list as label, \<open> = \<close>, expansion, joined by \<open>; \<close>.
\<close>

theorem expression_notation:
  "(\<forall>nodeId visited node w1 ws.
      nodeId \<notin> visited \<and> find (\<lambda>n. node_id n = nodeId) nodes = Some node
      \<and> sort_key targetPinIndex (filter (\<lambda>w. targetNodeId w = nodeId) wires) = w1 # ws \<longrightarrow>
      (let a = orElse (buildExpr nodes wires (sourceNodeId w1) (insert nodeId visited)) ''0'';
           b = (case ws of [] \<Rightarrow> ''0''
                | w2 # _ \<Rightarrow> orElse (buildExpr nodes wires (sourceNodeId w2) (insert nodeId visited)) ''0'')
       in (node_type node = AND \<longrightarrow>
             buildExpr nodes wires nodeId visited = ''('' @ a @ '' '' @ DOT @ '' '' @ b @ '')'')
        \<and> (node_type node = OR \<longrightarrow>
             buildExpr nodes wires nodeId visited = ''('' @ a @ '' + '' @ b @ '')'')
        \<and> (node_type node = NAND \<longrightarrow>
             buildExpr nodes wires nodeId visited = NEG @ ''('' @ a @ '' '' @ DOT @ '' '' @ b @ '')'')
        \<and> (node_type node = NOR \<longrightarrow>
             buildExpr nodes wires nodeId visited = NEG @ ''('' @ a @ '' + '' @ b @ '')'')
        \<and> (node_type node = XOR \<longrightarrow>
             buildExpr nodes wires nodeId visited = ''('' @ a @ '' '' @ OPLUS @ '' '' @ b @ '')'')
        \<and> (node_type node = NOT \<longrightarrow> buildExpr nodes wires nodeId visited = NEG @ a)
        \<and> (node_type node = OUTPUT \<longrightarrow>
             buildExpr nodes wires nodeId visited
               = orElse (buildExpr nodes wires (sourceNodeId w1) (insert nodeId visited)) ''?'')))
   \<and> (\<forall>m n visited. m \<notin> visited \<and> find (\<lambda>x. node_id x = m) nodes = Some n
            \<and> node_type n \<noteq> INPUT \<and> filter (\<lambda>w. targetNodeId w = m) wires = []
          \<longrightarrow> buildExpr nodes wires m visited = orElse (node_label n) ''?'')
   \<and> (filter (\<lambda>n. node_type n = OUTPUT) nodes = [] \<longrightarrow>
        generateExpression nodes wires = ''No Output'')
   \<and> generateExpression nodes wires =
        (if filter (\<lambda>n. node_type n = OUTPUT) nodes = [] then ''No Output''
         else joinWith ''; ''
                (map (\<lambda>out. node_label out @ '' = '' @ buildExpr nodes wires (node_id out) {})
                   (filter (\<lambda>n. node_type n = OUTPUT) nodes)))"
proof (intro conjI allI impI)
  fix nodeId visited node w1 ws
  assume h: "nodeId \<notin> visited \<and> find (\<lambda>n. node_id n = nodeId) nodes = Some node
      \<and> sort_key targetPinIndex (filter (\<lambda>w. targetNodeId w = nodeId) wires) = w1 # ws"
  then have h1: "nodeId \<notin> visited" and h2: "find (\<lambda>n. node_id n = nodeId) nodes = Some node"
    and h3: "sort_key targetPinIndex (filter (\<lambda>w. targetNodeId w = nodeId) wires) = w1 # ws"
    by simp_all
  show "let a = orElse (buildExpr nodes wires (sourceNodeId w1) (insert nodeId visited)) ''0'';
           b = (case ws of [] \<Rightarrow> ''0''
                | w2 # _ \<Rightarrow> orElse (buildExpr nodes wires (sourceNodeId w2) (insert nodeId visited)) ''0'')
       in (node_type node = AND \<longrightarrow>
             buildExpr nodes wires nodeId visited = ''('' @ a @ '' '' @ DOT @ '' '' @ b @ '')'')
        \<and> (node_type node = OR \<longrightarrow>
             buildExpr nodes wires nodeId visited = ''('' @ a @ '' + '' @ b @ '')'')
        \<and> (node_type node = NAND \<longrightarrow>
             buildExpr nodes wires nodeId visited = NEG @ ''('' @ a @ '' '' @ DOT @ '' '' @ b @ '')'')
        \<and> (node_type node = NOR \<longrightarrow>
             buildExpr nodes wires nodeId visited = NEG @ ''('' @ a @ '' + '' @ b @ '')'')
        \<and> (node_type node = XOR \<longrightarrow>
             buildExpr nodes wires nodeId visited = ''('' @ a @ '' '' @ OPLUS @ '' '' @ b @ '')'')
        \<and> (node_type node = NOT \<longrightarrow> buildExpr nodes wires nodeId visited = NEG @ a)
        \<and> (node_type node = OUTPUT \<longrightarrow>
             buildExpr nodes wires nodeId visited
               = orElse (buildExpr nodes wires (sourceNodeId w1) (insert nodeId visited)) ''?'')"
    unfolding Let_def by (rule render_by_position[OF h1 h2 h3 refl refl])
next
  fix m n visited
  assume "m \<notin> visited \<and> find (\<lambda>x. node_id x = m) nodes = Some n
            \<and> node_type n \<noteq> INPUT \<and> filter (\<lambda>w. targetNodeId w = m) wires = []"
  then show "buildExpr nodes wires m visited = orElse (node_label n) ''?''"
    by (intro buildExpr_undriven) simp_all
next
  assume "filter (\<lambda>n. node_type n = OUTPUT) nodes = []"
  then show "generateExpression nodes wires = ''No Output''"
    by (simp add: generateExpression_eq)
next
  show "generateExpression nodes wires =
        (if filter (\<lambda>n. node_type n = OUTPUT) nodes = [] then ''No Output''
         else joinWith ''; ''
                (map (\<lambda>out. node_label out @ '' = '' @ buildExpr nodes wires (node_id out) {})
                   (filter (\<lambda>n. node_type n = OUTPUT) nodes)))"
    by (rule generateExpression_eq)
qed

theorem expression_notation_witness:
  "''g'' \<notin> {''y''}
   \<and> buildExpr andNodes andWires ''g'' {''y''} = ''(A '' @ DOT @ '' B)''
   \<and> buildExpr andNodes andWires ''y'' {} = ''(A '' @ DOT @ '' B)''
   \<and> generateExpression andNodes andWires = ''Y = (A '' @ DOT @ '' B)''
   \<and> buildExpr inverterNodes inverterWires ''n'' {''y''} = NEG @ ''A''
   \<and> buildExpr blankNodes blankWires ''z'' {} = ''Z''
   \<and> generateExpression blankNodes blankWires = ''Y = ?; Z = Z''
   \<and> filter (\<lambda>n. node_type n = OUTPUT) ringNodes = []
   \<and> generateExpression ringNodes ringWires = ''No Output''
   \<and> generateExpression ([] :: int CircuitNode list) [] = ''No Output''"
proof -
  note gate = expression_notation[THEN conjunct1, rule_format, unfolded Let_def]
  note undriven = expression_notation[THEN conjunct2, THEN conjunct1, rule_format]
  note none = expression_notation[THEN conjunct2, THEN conjunct2, THEN conjunct1, rule_format]
  note listing = expression_notation[THEN conjunct2, THEN conjunct2, THEN conjunct2]

  have nv: "''g'' \<notin> {''y''}" by simp
  have f: "find (\<lambda>n. node_id n = ''g'') andNodes = Some (mkNode ''g'' AND ''AND'' False)"
    by (simp add: andNodes_def mkNode_def)
  have s: "sort_key targetPinIndex (filter (\<lambda>w. targetNodeId w = ''g'') andWires)
             = mkWire ''a'' ''g'' 0 # [mkWire ''b'' ''g'' 1]"
    by (simp add: andWires_def mkWire_def)
  have a: "orElse (buildExpr andNodes andWires (sourceNodeId (mkWire ''a'' ''g'' 0))
                            (insert ''g'' {''y''})) ''0'' = ''A''"
    by (simp add: andNodes_def andWires_def expr_defs)
  have b: "(case [mkWire ''b'' ''g'' 1] of [] \<Rightarrow> ''0''
              | w2 # _ \<Rightarrow> orElse (buildExpr andNodes andWires (sourceNodeId w2)
                                     (insert ''g'' {''y''})) ''0'') = ''B''"
    by (simp add: andNodes_def andWires_def expr_defs)
  have ty: "node_type (mkNode ''g'' AND ''AND'' False) = AND" by (simp add: mkNode_def)
  have "buildExpr andNodes andWires ''g'' {''y''} = ''('' @ ''A'' @ '' '' @ DOT @ '' '' @ ''B'' @ '')''"
    using gate[OF conjI[OF nv conjI[OF f s]], THEN conjunct1, rule_format, OF ty]
    unfolding a b .
  then have e: "buildExpr andNodes andWires ''g'' {''y''} = ''(A '' @ DOT @ '' B)''" by simp
  have ge: "generateExpression andNodes andWires = ''Y = (A '' @ DOT @ '' B)''"
    using listing[of andNodes andWires] by (simp add: andNodes_def andWires_def expr_defs)

  have nvy: "''y'' \<notin> ({} :: string set)" by simp
  have fy: "find (\<lambda>n. node_id n = ''y'') andNodes = Some (mkNode ''y'' OUTPUT ''Y'' False)"
    by (simp add: andNodes_def mkNode_def)
  have sy: "sort_key targetPinIndex (filter (\<lambda>w. targetNodeId w = ''y'') andWires)
             = mkWire ''g'' ''y'' 0 # []"
    by (simp add: andWires_def mkWire_def)
  note u = gate[OF conjI[OF nvy conjI[OF fy sy]]]
  have tyy: "node_type (mkNode ''y'' OUTPUT ''Y'' False) = OUTPUT" by (simp add: mkNode_def)
  have "buildExpr andNodes andWires ''y'' {}
          = orElse (buildExpr andNodes andWires (sourceNodeId (mkWire ''g'' ''y'' 0)) (insert ''y'' {})) ''?''"
    using u tyy by (elim conjE) (rule mp)
  then have ey: "buildExpr andNodes andWires ''y'' {} = ''(A '' @ DOT @ '' B)''"
    using e by (simp add: mkWire_def orElse_def insert_commute)

  have nvn: "''n'' \<notin> {''y''}" by simp
  have fn: "find (\<lambda>n. node_id n = ''n'') inverterNodes = Some (mkNode ''n'' NOT ''NOT'' False)"
    by (simp add: inverterNodes_def mkNode_def)
  have sn: "sort_key targetPinIndex (filter (\<lambda>w. targetNodeId w = ''n'') inverterWires)
             = mkWire ''a'' ''n'' 0 # []"
    by (simp add: inverterWires_def mkWire_def)
  have an: "orElse (buildExpr inverterNodes inverterWires (sourceNodeId (mkWire ''a'' ''n'' 0))
                            (insert ''n'' {''y''})) ''0'' = ''A''"
    by (simp add: inverterNodes_def inverterWires_def expr_defs)
  note v = gate[OF conjI[OF nvn conjI[OF fn sn]]]
  have tyn: "node_type (mkNode ''n'' NOT ''NOT'' False) = NOT" by (simp add: mkNode_def)
  have "buildExpr inverterNodes inverterWires ''n'' {''y''}
          = NEG @ orElse (buildExpr inverterNodes inverterWires (sourceNodeId (mkWire ''a'' ''n'' 0))
                            (insert ''n'' {''y''})) ''0''"
    using v tyn by (elim conjE) (rule mp)
  then have en: "buildExpr inverterNodes inverterWires ''n'' {''y''} = NEG @ ''A''"
    unfolding an .

  have "''z'' \<notin> ({} :: string set) \<and> find (\<lambda>x. node_id x = ''z'') blankNodes = Some (mkNode ''z'' OUTPUT ''Z'' False)
                \<and> node_type (mkNode ''z'' OUTPUT ''Z'' False) \<noteq> INPUT
                \<and> filter (\<lambda>w. targetNodeId w = ''z'') blankWires = []"
    by (simp add: blankNodes_def blankWires_def mkNode_def mkWire_def)
  then have "buildExpr blankNodes blankWires ''z'' {}
                   = orElse (node_label (mkNode ''z'' OUTPUT ''Z'' False)) ''?''"
    by (rule undriven)
  then have ez: "buildExpr blankNodes blankWires ''z'' {} = ''Z''"
    by (simp add: mkNode_def orElse_def)

  have ro: "filter (\<lambda>n. node_type n = OUTPUT) ringNodes = []"
    by (simp add: ringNodes_def mkNode_def)
  have rn: "generateExpression ringNodes ringWires = ''No Output''"
    using ro by (rule none)
  have eo: "filter (\<lambda>n. node_type n = OUTPUT) ([] :: int CircuitNode list) = []" by simp
  have en0: "generateExpression ([] :: int CircuitNode list) [] = ''No Output''"
    using eo by (rule none)
  from nv e ey ge en ez blank_expr ro rn en0 show ?thesis by simp
qed

text \<open>
  Claim C7 as stated fails at an input whose label is the empty string: its expansion
  is the empty string, and the OUTPUT it drives renders as \<open>?\<close>.
\<close>

theorem expression_notation_counterexample:
  "\<not> (buildExpr blankNodes blankWires ''y'' {} = buildExpr blankNodes blankWires ''a'' {''y''})"
  by (simp add: blankNodes_def blankWires_def expr_defs)

lemma getNodeInputs_pin_one:
  assumes only: "filter (\<lambda>w. targetNodeId w = nodeId) wires = [w]"
    and pin: "targetPinIndex w = 1"
    and src: "find (\<lambda>n. node_id n = sourceNodeId w) nodes = Some s"
  shows "getNodeInputs nodeId wires nodes = [None, Some (node_value s)]"
  by (simp add: getNodeInputs_char only pinWrites_def pin src lastOpt_def)

text \<open>
  Claim C9, as amended. Take a two-input gate, found and not on the current path, whose
  only driving wire targets pin 1 and has a source that is found. The synthesizer takes
  its operands by position among the sorted wires: the first operand is the expansion
  of the pin-1 source, or \<open>0\<close> when that expansion is the empty string, and the second
  operand is \<open>0\<close>. The evaluator goes by pin index: the source's value is on operand b
  and operand a is absent.
\<close>

theorem pin_one_operands:
  assumes "nodeId \<notin> visited"
    and "find (\<lambda>n. node_id n = nodeId) nodes = Some node"
    and "filter (\<lambda>w. targetNodeId w = nodeId) wires = [w]"
    and "targetPinIndex w = 1"
    and "find (\<lambda>n. node_id n = sourceNodeId w) nodes = Some s"
    and "a = orElse (buildExpr nodes wires (sourceNodeId w) (insert nodeId visited)) ''0''"
  shows "(node_type node = AND \<longrightarrow>
            buildExpr nodes wires nodeId visited = ''('' @ a @ '' '' @ DOT @ '' '' @ ''0'' @ '')'')
       \<and> (node_type node = OR \<longrightarrow>
            buildExpr nodes wires nodeId visited = ''('' @ a @ '' + '' @ ''0'' @ '')'')
       \<and> (node_type node = NAND \<longrightarrow>
            buildExpr nodes wires nodeId visited = NEG @ ''('' @ a @ '' '' @ DOT @ '' '' @ ''0'' @ '')'')
       \<and> (node_type node = NOR \<longrightarrow>
            buildExpr nodes wires nodeId visited = NEG @ ''('' @ a @ '' + '' @ ''0'' @ '')'')
       \<and> (node_type node = XOR \<longrightarrow>
            buildExpr nodes wires nodeId visited = ''('' @ a @ '' '' @ OPLUS @ '' '' @ ''0'' @ '')'')
       \<and> getNodeInputs nodeId wires nodes = [None, Some (node_value s)]
       \<and> slot (getNodeInputs nodeId wires nodes) 0 = None
       \<and> slot (getNodeInputs nodeId wires nodes) 1 = Some (node_value s)"
proof -
  have sorted: "sort_key targetPinIndex (filter (\<lambda>w. targetNodeId w = nodeId) wires) = w # []"
    by (simp add: assms(3))
  have b: "''0'' = (case [] :: Wire list of [] \<Rightarrow> ''0''
              | w2 # _ \<Rightarrow> orElse (buildExpr nodes wires (sourceNodeId w2) (insert nodeId visited)) ''0'')"
    by simp
  note t = render_by_position[OF assms(1,2) sorted assms(6) b]
  have g: "getNodeInputs nodeId wires nodes = [None, Some (node_value s)]"
    using assms(3,4,5) by (rule getNodeInputs_pin_one)
  then have "slot (getNodeInputs nodeId wires nodes) 0 = None"
    "slot (getNodeInputs nodeId wires nodes) 1 = Some (node_value s)"
    by (simp_all add: slot_def)
  with t g show ?thesis by simp
qed

theorem pin_one_operands_witness:
  "''g'' \<notin> {''y''}
   \<and> targetPinIndex (mkWire ''a'' ''g'' 1) = 1
   \<and> buildExpr (pinOneNodes ''A'') pinOneWires ''g'' {''y''} = ''(A '' @ DOT @ '' 0)''
   \<and> getNodeInputs ''g'' pinOneWires (pinOneNodes ''A'') = [None, Some True]"
proof -
  have nv: "''g'' \<notin> {''y''}" by simp
  have f: "find (\<lambda>n. node_id n = ''g'') (pinOneNodes ''A'') = Some (mkNode ''g'' AND ''G'' False)"
    by (simp add: pinOneNodes_def mkNode_def)
  have only: "filter (\<lambda>w. targetNodeId w = ''g'') pinOneWires = [mkWire ''a'' ''g'' 1]"
    by (simp add: pinOneWires_def mkWire_def)
  have pin: "targetPinIndex (mkWire ''a'' ''g'' 1) = 1" by (simp add: mkWire_def)
  have src: "find (\<lambda>n. node_id n = sourceNodeId (mkWire ''a'' ''g'' 1)) (pinOneNodes ''A'')
               = Some (mkNode ''a'' INPUT ''A'' True)"
    by (simp add: pinOneNodes_def mkNode_def mkWire_def)
  have a: "''A'' = orElse (buildExpr (pinOneNodes ''A'') pinOneWires
                            (sourceNodeId (mkWire ''a'' ''g'' 1)) (insert ''g'' {''y''})) ''0''"
    by (simp add: pinOneNodes_def pinOneWires_def expr_defs)
  note t = pin_one_operands[OF nv f only pin src a]
  have ty: "node_type (mkNode ''g'' AND ''G'' False) = AND" by (simp add: mkNode_def)
  have e: "buildExpr (pinOneNodes ''A'') pinOneWires ''g'' {''y''}
             = ''('' @ ''A'' @ '' '' @ DOT @ '' '' @ ''0'' @ '')''"
    using t[THEN conjunct1] ty by (rule mp)
  have g: "getNodeInputs ''g'' pinOneWires (pinOneNodes ''A'')
             = [None, Some (node_value (mkNode ''a'' INPUT ''A'' True))]"
    using t by (elim conjE)
  from nv pin e g show ?thesis by (simp add: mkNode_def)
qed

text \<open>
  Claim C9 as stated fails where the pin-1 source is an input whose label is the empty
  string: the first operand is \<open>0\<close>, not the (empty) expansion of the source.
\<close>

theorem pin_one_operands_counterexample:
  "\<not> (buildExpr (pinOneNodes []) pinOneWires ''g'' {''y''}
        = ''('' @ buildExpr (pinOneNodes []) pinOneWires ''a'' {''g'', ''y''}
            @ '' '' @ DOT @ '' '' @ ''0'' @ '')'')"
  by (simp add: pinOneNodes_def pinOneWires_def expr_defs DOT_def)

end
